theory Spec2Isabelle
  imports Main "HOL-Library.Multiset"
begin

section \<open>The duel subsystem of the trivia backend\<close>

text \<open>
  The duel ("duello") code of the server: invitations, atomic acceptance, answer
  recording, progression (reveal), the idle sweeper, the question set generator and the
  two score aggregations. Every SQL statement of a handler is a function on the database
  state, and a handler is the composition of its statements in the order of the source.
  A handler also returns the notifications it hands to \<open>sseEmit\<close>.

  Conventions of the model:
  \<^item> ids are \<open>int\<close> (the handlers read them with \<open>Number(...)\<close>; \<open>0\<close> is the value
    that the guards \<open>!id\<close> reject);
  \<^item> a timestamp is an \<open>int\<close> number of seconds; a handler takes the time \<open>now\<close>,
    which stands for every \<open>timezone('Europe/Istanbul', now())\<close> of the request; the
    invite handler compares two times that its statements read one after the other, so
    it also has a form with one clock reading for each statement (\<open>createInvite_at\<close>);
  \<^item> a table is the list of its rows in physical order; \<open>get\<close> (first row or null) is
    \<open>find\<close> or a \<open>case\<close> on the filtered list;
  \<^item> a nullable column is an \<open>option\<close>;
  \<^item> a string is a byte string (UTF-8), so the dotless i of the Turkish word for
    "no" is the two bytes \<open>0xC4 0xB1\<close>.
\<close>

subsection \<open>Strings: trim, toLowerCase, the answer vocabulary\<close>

text \<open>
  The white space that \<open>String.prototype.trim\<close> strips and \<open>parseInt\<close> skips is
  the \<open>WhiteSpace\<close> and \<open>LineTerminator\<close> code points of the language: U+0009 to
  U+000D, U+0020, U+00A0, U+1680, U+2000 to U+200A, U+2028, U+2029, U+202F, U+205F,
  U+3000 and U+FEFF. The list holds their UTF-8 encodings.
\<close>

definition js_white_space :: "string list" where
  "js_white_space =
     [[CHR 0x09], [CHR 0x0A], [CHR 0x0B], [CHR 0x0C], [CHR 0x0D], [CHR 0x20],
      [CHR 0xC2, CHR 0xA0],
      [CHR 0xE1, CHR 0x9A, CHR 0x80],
      [CHR 0xE2, CHR 0x80, CHR 0x80], [CHR 0xE2, CHR 0x80, CHR 0x81],
      [CHR 0xE2, CHR 0x80, CHR 0x82], [CHR 0xE2, CHR 0x80, CHR 0x83],
      [CHR 0xE2, CHR 0x80, CHR 0x84], [CHR 0xE2, CHR 0x80, CHR 0x85],
      [CHR 0xE2, CHR 0x80, CHR 0x86], [CHR 0xE2, CHR 0x80, CHR 0x87],
      [CHR 0xE2, CHR 0x80, CHR 0x88], [CHR 0xE2, CHR 0x80, CHR 0x89],
      [CHR 0xE2, CHR 0x80, CHR 0x8A],
      [CHR 0xE2, CHR 0x80, CHR 0xA8], [CHR 0xE2, CHR 0x80, CHR 0xA9],
      [CHR 0xE2, CHR 0x80, CHR 0xAF],
      [CHR 0xE2, CHR 0x81, CHR 0x9F],
      [CHR 0xE3, CHR 0x80, CHR 0x80],
      [CHR 0xEF, CHR 0xBB, CHR 0xBF]]"

function strip :: "string list \<Rightarrow> string \<Rightarrow> string" where
  \<comment> \<open>removes from the front of the text every leading occurrence of one of the words\<close>
  "strip ws s =
     (case find (\<lambda>w. w \<noteq> [] \<and> take (length w) s = w) ws of
        None \<Rightarrow> s
      | Some w \<Rightarrow> strip ws (drop (length w) s))"
  by pat_completeness auto

termination
proof (relation "measure (\<lambda>(ws, s). length s)")
  show "wf (measure (\<lambda>(ws, s). length s))" by simp
next
  fix ws :: "string list" and s w :: string
  assume "find (\<lambda>w. w \<noteq> [] \<and> take (length w) s = w) ws = Some w"
  then have w: "w \<noteq> []" "take (length w) s = w"
    by (auto simp: find_Some_iff)
  have "length (take (length w) s) = length w" by (simp only: w(2))
  then have "length w \<le> length s" by (simp add: min_def split: if_splits)
  then show "((ws, drop (length w) s), (ws, s)) \<in> measure (\<lambda>(ws, s). length s)"
    using w(1) by (cases w) auto
qed

declare strip.simps [simp del]

definition js_trimStart :: "string \<Rightarrow> string" where
  "js_trimStart s = strip js_white_space s"

definition js_trim :: "string \<Rightarrow> string" where
  \<comment> \<open>\<open>String.prototype.trim\<close>: the white space at both ends\<close>
  "js_trim s = rev (strip (map rev js_white_space) (rev (js_trimStart s)))"

definition lower_char :: "char \<Rightarrow> char" where
  \<comment> \<open>\<open>toLowerCase\<close> on one ASCII character: the letters A to Z\<close>
  "lower_char c =
     (case map_of (zip ''ABCDEFGHIJKLMNOPQRSTUVWXYZ'' ''abcdefghijklmnopqrstuvwxyz'') c of
        Some d \<Rightarrow> d
      | None \<Rightarrow> c)"

definition js_toLowerCase :: "string \<Rightarrow> string" where
  \<comment> \<open>\<open>toLowerCase\<close> as far as a comparison with an ASCII word without the letter k
      can see it: A to Z are the only characters that \<open>toLowerCase\<close> maps to one of
      the other ASCII letters (the Kelvin sign U+212A becomes k). It is used where the
      result is only compared with such words (\<open>info\<close>, \<open>speed\<close>, \<open>accept\<close>,
      \<open>reject\<close>)\<close>
  "js_toLowerCase s = map lower_char s"

definition ascii :: "string \<Rightarrow> bool" where
  "ascii s = list_all (\<lambda>c. of_char c < (128 :: nat)) s"

definition toLowerCase :: "(string \<Rightarrow> string) \<Rightarrow> string \<Rightarrow> string" where
  \<comment> \<open>\<open>String.prototype.toLowerCase\<close>: on ASCII text it changes the letters A to Z; on
      any other text it is the Unicode case mapping of the runtime, the parameter
      \<open>unicode_lower\<close>\<close>
  "toLowerCase unicode_lower s = (if ascii s then map lower_char s else unicode_lower s)"

definition evet :: string where
  "evet = ''evet''"

definition hayir :: string where
  \<comment> \<open>the stored word for "no", with the dotless i (U+0131)\<close>
  "hayir = ''hay'' @ [CHR 0xC4, CHR 0xB1] @ ''r''"

definition bilmem :: string where
  "bilmem = ''bilmem''"


definition recognised_tokens :: "string list" where
  \<comment> \<open>every string that \<open>normalizeAnswer\<close> compares against, in the order of the source\<close>
  "recognised_tokens =
     [''hayir'', evet, hayir, bilmem, ''yes'', ''true'', ''1'', ''no'', ''false'', ''0'',
      ''dontknow'', ''unknown'', ''idk'', ''skip'', ''empty'', ''null'']"

text \<open>
  \<^verbatim>\<open>
  function normalizeAnswer(v) {
    if (v == null) return "";
    let s = String(v).trim().toLowerCase();
    if (s === "hayir") s = "hay\u0131r";
    if (["evet", "hay\u0131r", "bilmem"].includes(s)) return s;
    if (["yes", "true", "1"].includes(s)) return "evet";
    if (["no", "false", "0"].includes(s)) return "hay\u0131r";
    if (["dontknow", "unknown", "idk", "skip", "empty", "null"].includes(s)) return "bilmem";
    return s;
  }
  \<close>
  The argument is \<open>None\<close> for \<open>null\<close> and \<open>undefined\<close>, and \<open>Some raw\<close> with
  \<open>raw = String(v)\<close> otherwise. The first argument is the case mapping of the runtime
  for text that is not ASCII.
\<close>

definition normalizeAnswer :: "(string \<Rightarrow> string) \<Rightarrow> string option \<Rightarrow> string" where
  "normalizeAnswer unicode_lower v =
     (case v of
        None \<Rightarrow> []
      | Some raw \<Rightarrow>
          (let s0 = toLowerCase unicode_lower (js_trim raw);
               s = (if s0 = ''hayir'' then hayir else s0)
           in if s \<in> set [evet, hayir, bilmem] then s
              else if s \<in> set [''yes'', ''true'', ''1''] then evet
              else if s \<in> set [''no'', ''false'', ''0''] then hayir
              else if s \<in> set [''dontknow'', ''unknown'', ''idk'', ''skip'', ''empty'', ''null'']
                then bilmem
              else s))"

datatype duel_mode = Info | Speed

text \<open>
  \<^verbatim>\<open>
  function normalizeDuelloAnswer(mode, raw) {
    const s = normalizeAnswer(raw);
    if (mode === "speed" && s === "bilmem") { return null; }
    return s;
  }
  \<close>
\<close>

definition normalizeDuelloAnswer ::
  "(string \<Rightarrow> string) \<Rightarrow> duel_mode \<Rightarrow> string option \<Rightarrow> string option" where
  "normalizeDuelloAnswer unicode_lower mode raw =
     (let s = normalizeAnswer unicode_lower raw
      in if mode = Speed \<and> s = bilmem then None else Some s)"


subsection \<open>Numbers read from text\<close>

definition digit_val :: "char \<Rightarrow> nat option" where
  "digit_val c = map_of (zip ''0123456789'' [0, 1, 2, 3, 4, 5, 6, 7, 8, 9]) c"

definition digits_val :: "string \<Rightarrow> nat" where
  "digits_val ds = foldl (\<lambda>acc c. 10 * acc + (case digit_val c of Some d \<Rightarrow> d | None \<Rightarrow> 0)) 0 ds"

definition parseInt10 :: "string \<Rightarrow> int option" where
  \<comment> \<open>\<open>parseInt(s, 10)\<close>: leading white space, an optional sign, the longest prefix of
      decimal digits; \<open>None\<close> is \<open>NaN\<close> (no digit)\<close>
  "parseInt10 s =
     (let t = js_trimStart s;
          neg = (t \<noteq> [] \<and> hd t = CHR ''-'');
          u = (if t \<noteq> [] \<and> (hd t = CHR ''-'' \<or> hd t = CHR ''+'') then tl t else t);
          ds = takeWhile (\<lambda>c. digit_val c \<noteq> None) u
      in if ds = [] then None
         else Some (if neg then - int (digits_val ds) else int (digits_val ds)))"

definition env_or :: "string option \<Rightarrow> string \<Rightarrow> string" where
  \<comment> \<open>\<open>process.env.X || dflt\<close>: an unset or empty variable gives the default\<close>
  "env_or v dflt = (case v of None \<Rightarrow> dflt | Some s \<Rightarrow> if s = [] then dflt else s)"

text \<open>
  \<^verbatim>\<open>
  const DUELLO_IDLE_ABORT_SEC = Math.max(
    30,
    Math.min(600, parseInt(process.env.DUELLO_IDLE_ABORT_SEC || "90", 10))
  );
  \<close>
  \<open>Math.min\<close> and \<open>Math.max\<close> return \<open>NaN\<close> when an argument is \<open>NaN\<close>.
\<close>

definition DUELLO_IDLE_ABORT_SEC :: "string option \<Rightarrow> int option" where
  "DUELLO_IDLE_ABORT_SEC env =
     (case parseInt10 (env_or env ''90'') of
        None \<Rightarrow> None
      | Some n \<Rightarrow> Some (max 30 (min 600 n)))"

definition digit_char :: "nat \<Rightarrow> char" where
  "digit_char d = ''0123456789'' ! d"

fun text_of_nat :: "nat \<Rightarrow> string" where
  "text_of_nat n =
     (if n < 10 then [digit_char n] else text_of_nat (n div 10) @ [digit_char (n mod 10)])"

declare text_of_nat.simps [simp del]

definition text_of_int :: "int \<Rightarrow> string" where
  \<comment> \<open>\<open>id::text\<close> in SQL and \<open>String(id)\<close> in JavaScript: the decimal numeral\<close>
  "text_of_int i = (if i < 0 then CHR ''-'' # text_of_nat (nat (- i)) else text_of_nat (nat i))"

definition upper_char :: "char \<Rightarrow> char" where
  "upper_char c =
     (case map_of (zip ''abcdefghijklmnopqrstuvwxyz'' ''ABCDEFGHIJKLMNOPQRSTUVWXYZ'') c of
        Some d \<Rightarrow> d
      | None \<Rightarrow> c)"

definition js_toUpperCase :: "string \<Rightarrow> string" where
  "js_toUpperCase s = map upper_char s"

subsection \<open>Tables\<close>

datatype match_state = Active | Finished | Abandoned

datatype invite_status = Pending | Accepted | Rejected | Cancelled | Expired

record user_row =
  u_id :: int
  user_code :: "string option"

record survey_row =
  s_id :: int
  s_status :: "string option"

record question_row =
  q_id :: int
  q_survey_id :: "int option"
  correct_answer :: "string option"
  point :: "int option"

record match_row =
  m_id :: int
  m_mode :: duel_mode
  user_a_id :: int
  user_b_id :: int
  m_created_at :: int
  finished_at :: "int option"
  m_state :: match_state
  total_questions :: int
  current_index :: int
  last_seen_a :: "int option"
  last_seen_b :: "int option"
  last_activity_at :: "int option"
  abandoned_at :: "int option"
  ended_reason :: "string option"

record invite_row =
  i_id :: int
  from_user_id :: int
  to_user_id :: int
  i_mode :: duel_mode
  i_status :: invite_status
  i_created_at :: int
  expire_at :: int
  accepted_at :: "int option"
  rejected_at :: "int option"
  cancelled_at :: "int option"
  i_match_id :: "int option"

record mq_row =
  mq_match_id :: int
  pos :: int
  mq_question_id :: int

record answer_row =
  a_match_id :: int
  a_question_id :: int
  a_user_id :: int
  answer :: string
  is_correct :: int
  a_created_at :: int
  max_time_seconds :: "int option"
  time_left_seconds :: "int option"
  earned_seconds :: "int option"

record db =
  users :: "user_row list"
  surveys :: "survey_row list"
  questions :: "question_row list"
  duello_matches :: "match_row list"
  duello_invites :: "invite_row list"
  duello_match_questions :: "mq_row list"
  duello_answers :: "answer_row list"
  matches_seq :: int
  invites_seq :: int

text \<open>
  \<open>matches_seq\<close> and \<open>invites_seq\<close> are the last values of the two \<open>BIGSERIAL\<close>
  sequences. The schema's checks that the types do not already give are
  \<open>CHECK (user_a_id <> user_b_id)\<close> on matches, the foreign keys of an invite's two users,
  and the unique index \<open>uq_duello_invites_pending_pair\<close>; an insert that breaks one of
  them throws, which the handlers turn into status 500.
\<close>

datatype event =
    InviteNew int
  | InviteRejected int
  | InviteAccepted int int
  | MatchFinished int
  | MatchAbandoned int

text \<open>A notice is one call \<open>sseEmit(userId, event, payload)\<close>: the recipient and the event.\<close>

type_synonym notice = "int \<times> event"

datatype error =
    MissingIds          \<comment> \<open>400, a required id is missing\<close>
  | TargetUnknown       \<comment> \<open>404, "Hedef kullanici bulunamadi"\<close>
  | BadMode             \<comment> \<open>400, mode is neither info nor speed\<close>
  | SelfChallenge       \<comment> \<open>400, "Kendinize davet gonderemezsiniz"\<close>
  | AlreadyActive       \<comment> \<open>409, sender or receiver has an active duel\<close>
  | DuplicatePending    \<comment> \<open>409, "Zaten acik bir davet var"\<close>
  | BadAction           \<comment> \<open>400, action is neither accept nor reject\<close>
  | InviteNotFound      \<comment> \<open>404, "Davet bulunamadi"\<close>
  | Forbidden           \<comment> \<open>403\<close>
  | NotPending          \<comment> \<open>409, "Davet artik pending degil"\<close>
  | InviteExpired       \<comment> \<open>410, "Davetin suresi dolmus"\<close>
  | MatchNotFound       \<comment> \<open>404, "Mac bulunamadi"\<close>
  | MatchNotActive      \<comment> \<open>409, "Mac aktif degil"\<close>
  | NoActiveQuestion    \<comment> \<open>400, "Aktif soru yok"\<close>
  | NoSkipInSpeedMode   \<comment> \<open>400, no "bilmem" in speed mode\<close>
  | AlreadyAnswered     \<comment> \<open>409, "Bu soruya zaten cevap verdiniz"\<close>
  | QuestionLocked      \<comment> \<open>409, "Soru kilitlendi (hiz modu)"\<close>
  | ServerError         \<comment> \<open>500, a statement threw\<close>

subsection \<open>Invites: helpers\<close>

definition expireOldInvites :: "int \<Rightarrow> db \<Rightarrow> db" where
  \<comment> \<open>\<open>UPDATE duello_invites SET status='expired' WHERE status='pending' AND expire_at <= now\<close>\<close>
  "expireOldInvites now d =
     d\<lparr>duello_invites :=
         map (\<lambda>i. if i_status i = Pending \<and> expire_at i \<le> now then i\<lparr>i_status := Expired\<rparr> else i)
             (duello_invites d)\<rparr>"

definition references :: "match_row \<Rightarrow> int \<Rightarrow> bool" where
  \<comment> \<open>\<open>user_a_id = $1 OR user_b_id = $1\<close>\<close>
  "references m uid = (user_a_id m = uid \<or> user_b_id m = uid)"

definition hasActiveMatch :: "db \<Rightarrow> int \<Rightarrow> bool" where
  "hasActiveMatch d userId =
     (filter (\<lambda>m. m_state m = Active \<and> references m userId) (duello_matches d) \<noteq> [])"

definition hasFreshPendingInvite :: "int \<Rightarrow> db \<Rightarrow> int \<Rightarrow> int \<Rightarrow> bool" where
  "hasFreshPendingInvite now d a b =
     (filter (\<lambda>i. i_status i = Pending \<and> now < expire_at i \<and>
                   ((from_user_id i = a \<and> to_user_id i = b) \<or>
                    (from_user_id i = b \<and> to_user_id i = a)))
             (duello_invites d) \<noteq> [])"

definition findUserByIdOrCode :: "db \<Rightarrow> int \<Rightarrow> string \<Rightarrow> user_row option" where
  \<comment> \<open>\<open>user_id = 0\<close> and \<open>user_code = []\<close> are the falsy (absent) values\<close>
  "findUserByIdOrCode d uid code =
     (if uid \<noteq> 0 then find (\<lambda>u. u_id u = uid) (users d)
      else if code \<noteq> [] then
        find (\<lambda>u. user_code u = Some (js_toUpperCase (js_trim code))) (users d)
      else None)"

definition parse_mode :: "string \<Rightarrow> duel_mode option" where
  \<comment> \<open>\<open>String(req.body?.mode || "info").toLowerCase()\<close> and the test
      \<open>["info", "speed"].includes(mode)\<close>\<close>
  "parse_mode raw =
     (let s = js_toLowerCase (if raw = [] then ''info'' else raw)
      in if s = ''info'' then Some Info else if s = ''speed'' then Some Speed else None)"

definition lazy_finish :: "int \<Rightarrow> db \<Rightarrow> db" where
  \<comment> \<open>\<open>UPDATE duello_matches SET state='finished', finished_at = now
       WHERE state = 'active' AND current_index >= total_questions\<close>\<close>
  "lazy_finish now d =
     d\<lparr>duello_matches :=
         map (\<lambda>m. if m_state m = Active \<and> total_questions m \<le> current_index m
                   then m\<lparr>m_state := Finished, finished_at := Some now\<rparr> else m)
             (duello_matches d)\<rparr>"

definition new_invite :: "int \<Rightarrow> int \<Rightarrow> int \<Rightarrow> int \<Rightarrow> duel_mode \<Rightarrow> invite_row" where
  "new_invite now iid fromId toId mode =
     \<lparr>i_id = iid, from_user_id = fromId, to_user_id = toId, i_mode = mode, i_status = Pending,
      i_created_at = now, expire_at = now + 300, accepted_at = None, rejected_at = None,
      cancelled_at = None, i_match_id = None\<rparr>"

definition insert_invite :: "int \<Rightarrow> int \<Rightarrow> int \<Rightarrow> duel_mode \<Rightarrow> db \<Rightarrow> invite_row option \<times> db" where
  \<comment> \<open>the \<open>INSERT INTO duello_invites ... RETURNING\<close>; \<open>None\<close> when the insert throws
      (a user row missing, or a pending row of the same ordered pair)\<close>
  "insert_invite now fromId toId mode d =
     (let iid = invites_seq d + 1;
          d1 = d\<lparr>invites_seq := iid\<rparr>
      in if find (\<lambda>u. u_id u = fromId) (users d) = None
            \<or> find (\<lambda>u. u_id u = toId) (users d) = None
            \<or> filter (\<lambda>i. i_status i = Pending \<and> from_user_id i = fromId \<and> to_user_id i = toId)
                      (duello_invites d) \<noteq> []
         then (None, d1)
         else (Some (new_invite now iid fromId toId mode),
               d1\<lparr>duello_invites := duello_invites d @ [new_invite now iid fromId toId mode]\<rparr>))"

subsection \<open>POST /api/duello/invite\<close>

text \<open>
  The four statements of the handler that read the clock: \<open>expireOldInvites\<close>, the
  update that finishes used-up matches, \<open>hasFreshPendingInvite\<close> and the insert
  (\<open>created_at\<close> and \<open>expire_at\<close> are computed in the one insert statement).
\<close>

record invite_clock =
  t_expire :: int
  t_finish :: int
  t_fresh :: int
  t_insert :: int

definition createInvite_at ::
  "invite_clock \<Rightarrow> int \<Rightarrow> int \<Rightarrow> string \<Rightarrow> string \<Rightarrow> db \<Rightarrow> (error + invite_row) \<times> db \<times> notice list" where
  "createInvite_at clk fromId to_id to_code mode_raw d =
     (let toUser = findUserByIdOrCode d to_id to_code
      in if fromId = 0 then (Inl MissingIds, d, [])
         else case toUser of
           None \<Rightarrow> (Inl TargetUnknown, d, [])
         | Some tu \<Rightarrow>
            (case parse_mode mode_raw of
               None \<Rightarrow> (Inl BadMode, d, [])
             | Some mode \<Rightarrow>
                (let toId = u_id tu
                 in if fromId = toId then (Inl SelfChallenge, d, [])
                    else
                      (let d1 = expireOldInvites (t_expire clk) d;
                           d2 = lazy_finish (t_finish clk) d1
                       in if hasActiveMatch d2 fromId then (Inl AlreadyActive, d2, [])
                          else if hasActiveMatch d2 toId then (Inl AlreadyActive, d2, [])
                          else if hasFreshPendingInvite (t_fresh clk) d2 fromId toId
                            then (Inl DuplicatePending, d2, [])
                          else
                            (case insert_invite (t_insert clk) fromId toId mode d2 of
                               (None, d3) \<Rightarrow> (Inl ServerError, d3, [])
                             | (Some ivt, d3) \<Rightarrow> (Inr ivt, d3, [(toId, InviteNew (i_id ivt))]))))))"

definition createInvite ::
  "int \<Rightarrow> int \<Rightarrow> int \<Rightarrow> string \<Rightarrow> string \<Rightarrow> db \<Rightarrow> (error + invite_row) \<times> db \<times> notice list" where
  \<comment> \<open>the handler when all four readings are \<open>now\<close>\<close>
  "createInvite now fromId to_id to_code mode_raw d =
     createInvite_at \<lparr>t_expire = now, t_finish = now, t_fresh = now, t_insert = now\<rparr>
       fromId to_id to_code mode_raw d"

subsection \<open>POST /api/duello/invite/respond\<close>

definition new_match :: "int \<Rightarrow> int \<Rightarrow> duel_mode \<Rightarrow> int \<Rightarrow> int \<Rightarrow> match_row" where
  "new_match now mid mode fromId toId =
     \<lparr>m_id = mid, m_mode = mode, user_a_id = fromId, user_b_id = toId, m_created_at = now,
      finished_at = None, m_state = Active, total_questions = 12, current_index = 0,
      last_seen_a = Some now, last_seen_b = Some now, last_activity_at = Some now,
      abandoned_at = None, ended_reason = None\<rparr>"

definition accept_invite_rows :: "int \<Rightarrow> int \<Rightarrow> int \<Rightarrow> int \<Rightarrow> int \<Rightarrow> invite_row list \<Rightarrow> invite_row list" where
  \<comment> \<open>the two invite updates of the transaction: this invite becomes accepted with the
      match id; then every other pending, unexpired invite of either user is cancelled\<close>
  "accept_invite_rows now inviteId mid fromId toId invs =
     map (\<lambda>i. if i_status i = Pending \<and> now < expire_at i \<and> i_id i \<noteq> inviteId \<and>
                  (from_user_id i \<in> {fromId, toId} \<or> to_user_id i \<in> {fromId, toId})
               then i\<lparr>i_status := Cancelled, cancelled_at := Some now\<rparr> else i)
         (map (\<lambda>i. if i_id i = inviteId
                   then i\<lparr>i_status := Accepted, accepted_at := Some now, i_match_id := Some mid\<rparr>
                   else i) invs)"

datatype respond_ok = RejectedOk int | AcceptedOk match_row

text \<open>
  The transaction of the accept path, from \<open>BEGIN\<close> to \<open>COMMIT\<close> or \<open>ROLLBACK\<close>. It
  runs under the two advisory locks of its users, so it is one step of the model: no
  other accept that touches one of the two users runs inside it. \<open>fromId\<close> and
  \<open>toId\<close> are the values the handler read before the transaction.
\<close>

definition acceptTx :: "int \<Rightarrow> int \<Rightarrow> int \<Rightarrow> int \<Rightarrow> db \<Rightarrow> (error + respond_ok) \<times> db \<times> notice list" where
  "acceptTx now inviteId fromId toId d =
     (case find (\<lambda>i. i_id i = inviteId) (duello_invites d) of
        None \<Rightarrow> (Inl InviteNotFound, d, [])
      | Some lockedInv \<Rightarrow>
          if i_status lockedInv \<noteq> Pending then (Inl NotPending, d, [])
          else if expire_at lockedInv \<le> now then
            (Inl InviteExpired,
             d\<lparr>duello_invites :=
                 map (\<lambda>i. if i_id i = inviteId then i\<lparr>i_status := Expired\<rparr> else i)
                     (duello_invites d)\<rparr>, [])
          else if hasActiveMatch d fromId then (Inl AlreadyActive, d, [])
          else if hasActiveMatch d toId then (Inl AlreadyActive, d, [])
          else if fromId = toId then (Inl ServerError, d, [])
          else
            (let mid = matches_seq d + 1;
                 match = new_match now mid (i_mode lockedInv) fromId toId
             in (Inr (AcceptedOk match),
                 d\<lparr>matches_seq := mid,
                   duello_matches := duello_matches d @ [match],
                   duello_invites :=
                     accept_invite_rows now inviteId mid fromId toId (duello_invites d)\<rparr>,
                 [(fromId, InviteAccepted inviteId mid), (toId, InviteAccepted inviteId mid)])))"

definition parse_action :: "string \<Rightarrow> bool option" where
  \<comment> \<open>\<open>String(req.body?.action || "").toLowerCase()\<close>; \<open>Some True\<close> is accept,
      \<open>Some False\<close> is reject\<close>
  "parse_action raw =
     (let s = js_toLowerCase raw
      in if s = ''accept'' then Some True else if s = ''reject'' then Some False else None)"

definition respondInvite ::
  "int \<Rightarrow> int \<Rightarrow> int \<Rightarrow> string \<Rightarrow> db \<Rightarrow> (error + respond_ok) \<times> db \<times> notice list" where
  "respondInvite now inviteId userId action_raw d =
     (if inviteId = 0 \<or> userId = 0 then (Inl MissingIds, d, [])
      else case parse_action action_raw of
        None \<Rightarrow> (Inl BadAction, d, [])
      | Some accept \<Rightarrow>
         (let d1 = expireOldInvites now d
          in case find (\<lambda>i. i_id i = inviteId) (duello_invites d1) of
               None \<Rightarrow> (Inl InviteNotFound, d1, [])
             | Some ivt \<Rightarrow>
                 if to_user_id ivt \<noteq> userId then (Inl Forbidden, d1, [])
                 else if i_status ivt \<noteq> Pending then (Inl NotPending, d1, [])
                 else if expire_at ivt \<le> now then
                   (Inl InviteExpired,
                    d1\<lparr>duello_invites :=
                         map (\<lambda>i. if i_id i = inviteId then i\<lparr>i_status := Expired\<rparr> else i)
                             (duello_invites d1)\<rparr>, [])
                 else if \<not> accept then
                   (Inr (RejectedOk inviteId),
                    d1\<lparr>duello_invites :=
                         map (\<lambda>i. if i_id i = inviteId
                                   then i\<lparr>i_status := Rejected, rejected_at := Some now\<rparr> else i)
                             (duello_invites d1)\<rparr>,
                    [(from_user_id ivt, InviteRejected inviteId)])
                 else acceptTx now inviteId (from_user_id ivt) (to_user_id ivt) d1))"

subsection \<open>Matches: helpers\<close>

definition duelloGetMatch :: "db \<Rightarrow> int \<Rightarrow> match_row option" where
  "duelloGetMatch d matchId = find (\<lambda>m. m_id m = matchId) (duello_matches d)"

definition inThisMatch :: "match_row \<Rightarrow> int \<Rightarrow> bool" where
  "inThisMatch m uid = (user_a_id m = uid \<or> user_b_id m = uid)"

definition opponentId :: "match_row \<Rightarrow> int \<Rightarrow> int" where
  "opponentId m uid = (if user_a_id m = uid then user_b_id m else user_a_id m)"

definition duelloGetQuestionIdByPos :: "db \<Rightarrow> int \<Rightarrow> int \<Rightarrow> int option" where
  \<comment> \<open>\<open>row?.question_id || null\<close>: no row, or a question id \<open>0\<close>, gives null\<close>
  "duelloGetQuestionIdByPos d matchId p =
     (case find (\<lambda>r. mq_match_id r = matchId \<and> pos r = p) (duello_match_questions d) of
        None \<Rightarrow> None
      | Some r \<Rightarrow> if mq_question_id r = 0 then None else Some (mq_question_id r))"

definition touch_liveness :: "int \<Rightarrow> int \<Rightarrow> int \<Rightarrow> db \<Rightarrow> db" where
  \<comment> \<open>the liveness update of the answer and reveal handlers\<close>
  "touch_liveness now matchId userId d =
     d\<lparr>duello_matches :=
         map (\<lambda>m. if m_id m = matchId
                   then m\<lparr>last_activity_at := Some now,
                          last_seen_a := (if user_a_id m = userId then Some now else last_seen_a m),
                          last_seen_b := (if user_b_id m = userId then Some now else last_seen_b m)\<rparr>
                   else m)
             (duello_matches d)\<rparr>"

definition touch_liveness_status :: "int \<Rightarrow> int \<Rightarrow> int \<Rightarrow> db \<Rightarrow> db" where
  \<comment> \<open>the liveness update of the status handler: \<open>last_activity_at\<close> is only filled
      when it is null\<close>
  "touch_liveness_status now matchId userId d =
     d\<lparr>duello_matches :=
         map (\<lambda>m. if m_id m = matchId
                   then m\<lparr>last_activity_at :=
                            (case last_activity_at m of None \<Rightarrow> Some now | Some t \<Rightarrow> Some t),
                          last_seen_a := (if user_a_id m = userId then Some now else last_seen_a m),
                          last_seen_b := (if user_b_id m = userId then Some now else last_seen_b m)\<rparr>
                   else m)
             (duello_matches d)\<rparr>"

definition answers_for :: "db \<Rightarrow> int \<Rightarrow> int \<Rightarrow> answer_row list" where
  \<comment> \<open>\<open>SELECT ... FROM duello_answers WHERE match_id=$1 AND question_id=$2\<close>\<close>
  "answers_for d matchId qid =
     filter (\<lambda>r. a_match_id r = matchId \<and> a_question_id r = qid) (duello_answers d)"

definition answers_of :: "db \<Rightarrow> int \<Rightarrow> int \<Rightarrow> int \<Rightarrow> answer_row list" where
  \<comment> \<open>\<open>... WHERE match_id=$1 AND question_id=$2 AND user_id=$3\<close>\<close>
  "answers_of d matchId qid uid =
     filter (\<lambda>r. a_match_id r = matchId \<and> a_question_id r = qid \<and> a_user_id r = uid)
            (duello_answers d)"

definition user_answer ::
  "int \<Rightarrow> int \<Rightarrow> int \<Rightarrow> int \<Rightarrow> string \<Rightarrow> int \<Rightarrow> int \<Rightarrow> int \<Rightarrow> answer_row" where
  "user_answer now matchId qid uid norm isCorrect maxSec leftSec =
     \<lparr>a_match_id = matchId, a_question_id = qid, a_user_id = uid, answer = norm,
      is_correct = isCorrect, a_created_at = now, max_time_seconds = Some maxSec,
      time_left_seconds = Some leftSec, earned_seconds = Some leftSec\<rparr>"

definition sentinel_answer :: "int \<Rightarrow> int \<Rightarrow> int \<Rightarrow> int \<Rightarrow> int \<Rightarrow> answer_row" where
  \<comment> \<open>\<open>VALUES ($1,$2,$3,'bilmem',0, now, $4,0,0)\<close>\<close>
  "sentinel_answer now matchId qid uid maxSec =
     \<lparr>a_match_id = matchId, a_question_id = qid, a_user_id = uid, answer = bilmem,
      is_correct = 0, a_created_at = now, max_time_seconds = Some maxSec,
      time_left_seconds = Some 0, earned_seconds = Some 0\<rparr>"

definition insert_answer :: "answer_row \<Rightarrow> db \<Rightarrow> db option" where
  \<comment> \<open>a plain \<open>INSERT INTO duello_answers\<close>; \<open>None\<close> when the unique index
      \<open>uq_duello_answers_once (match_id, question_id, user_id)\<close> makes it throw\<close>
  "insert_answer r d =
     (if answers_of d (a_match_id r) (a_question_id r) (a_user_id r) \<noteq> [] then None
      else Some (d\<lparr>duello_answers := duello_answers d @ [r]\<rparr>))"

definition is_correct_of :: "db \<Rightarrow> int \<Rightarrow> string \<Rightarrow> int" where
  \<comment> \<open>\<open>qc?.correct_answer === norm ? 1 : 0\<close>\<close>
  "is_correct_of d qid norm =
     (case find (\<lambda>q. q_id q = qid) (questions d) of
        None \<Rightarrow> 0
      | Some q \<Rightarrow> if correct_answer q = Some norm then 1 else 0)"

definition max_sec_of :: "int \<Rightarrow> int option \<Rightarrow> int" where
  \<comment> \<open>\<open>Number.isFinite(mls) ? Math.max(1, Math.min(120, Math.round(mls))) : DUELLO_PER_Q_SEC\<close>;
      the argument is the rounded number, \<open>None\<close> when it is not finite\<close>
  "max_sec_of perq mls = (case mls of Some x \<Rightarrow> max 1 (min 120 x) | None \<Rightarrow> perq)"

definition left_sec_of :: "int \<Rightarrow> int option \<Rightarrow> int" where
  "left_sec_of maxSec tls = max 0 (min (case tls of Some x \<Rightarrow> x | None \<Rightarrow> 0) maxSec)"

subsection \<open>POST /api/duello/match/:matchId/answer\<close>

text \<open>
  The handler sends its statements one by one, each in its own transaction, and takes no
  lock, so statements of other requests can run between them. It is therefore modelled
  in three parts: the statements up to the insert (\<open>answer_prepare\<close>, whose result is
  the local variables of the handler), the insert of the caller's row
  (\<open>answer_insert\<close>), and in speed mode the sentinel for the opponent
  (\<open>answer_sentinel\<close>). \<open>submitAnswer\<close> is the handler when no other statement runs
  in between. \<open>perq\<close> is the number \<open>DUELLO_PER_Q_SEC\<close>. The result \<open>Inr locked\<close>
  is the response \<open>{ success: true, locked }\<close>.
\<close>

record answer_plan =
  p_match :: match_row    \<comment> \<open>\<open>m\<close>, the row read by the first statement\<close>
  p_qid :: int
  p_mine :: answer_row    \<comment> \<open>the values of the caller's insert\<close>
  p_maxSec :: int

definition answer_prepare ::
  "(string \<Rightarrow> string) \<Rightarrow> int \<Rightarrow> int \<Rightarrow> int \<Rightarrow> int \<Rightarrow> string option \<Rightarrow> int option \<Rightarrow> int option
   \<Rightarrow> db \<Rightarrow> (error + answer_plan) \<times> db" where
  "answer_prepare unicode_lower perq now matchId userId raw tls mls d =
     (if matchId = 0 \<or> userId = 0 then (Inl MissingIds, d)
      else case duelloGetMatch d matchId of
        None \<Rightarrow> (Inl MatchNotFound, d)
      | Some m \<Rightarrow>
          if m_state m \<noteq> Active then (Inl MatchNotActive, d)
          else if \<not> inThisMatch m userId then (Inl Forbidden, d)
          else
            (let d1 = touch_liveness now matchId userId d
             in case duelloGetQuestionIdByPos d1 (m_id m) (current_index m + 1) of
                  None \<Rightarrow> (Inl NoActiveQuestion, d1)
                | Some qid \<Rightarrow>
                   (case normalizeDuelloAnswer unicode_lower (m_mode m) raw of
                      None \<Rightarrow> (Inl NoSkipInSpeedMode, d1)
                    | Some norm \<Rightarrow>
                        if answers_of d1 matchId qid userId \<noteq> [] then (Inl AlreadyAnswered, d1)
                        else
                          (let isCorrect = is_correct_of d1 qid norm;
                               maxSec = max_sec_of perq mls;
                               leftSec = left_sec_of maxSec tls
                           in (Inr \<lparr>p_match = m, p_qid = qid,
                                    p_mine = user_answer now matchId qid userId norm isCorrect
                                               maxSec leftSec,
                                    p_maxSec = maxSec\<rparr>, d1)))))"

text \<open>
  The insert of the caller's row. In speed mode it is
  \<^verbatim>\<open>INSERT INTO duello_answers (...) SELECT ... WHERE NOT EXISTS
    (SELECT 1 FROM duello_answers WHERE match_id=$1 AND question_id=$2)\<close>:
  the subquery is evaluated on the snapshot of the statement (\<open>snap\<close>, the rows
  committed when the statement started) and the row is written to the table as it is at
  that moment (\<open>d\<close>). The result is \<open>None\<close> when the unique index
  \<open>uq_duello_answers_once\<close> makes the statement throw, \<open>Some (False, d)\<close> when the
  condition held back the row, and \<open>Some (True, d')\<close> when the row was written.
\<close>

definition answer_insert :: "answer_plan \<Rightarrow> db \<Rightarrow> db \<Rightarrow> (bool \<times> db) option" where
  "answer_insert p snap d =
     (if m_mode (p_match p) = Speed \<and>
         answers_for snap (a_match_id (p_mine p)) (p_qid p) \<noteq> []
      then Some (False, d)
      else map_option (Pair True) (insert_answer (p_mine p) d))"

definition answer_sentinel ::
  "int \<Rightarrow> answer_plan \<Rightarrow> int \<Rightarrow> int \<Rightarrow> db \<Rightarrow> db \<Rightarrow> (error + bool) \<times> db" where
  \<comment> \<open>speed mode, after the caller's row was written: the read \<open>oppPrev\<close>, on the
      table as it is then (\<open>seen\<close>), and the insert of \<open>bilmem\<close> for the opponent,
      on the table as it is at that moment (\<open>d\<close>)\<close>
  "answer_sentinel now p matchId userId seen d =
     (let oppId = opponentId (p_match p) userId
      in if answers_of seen matchId (p_qid p) oppId \<noteq> [] then (Inr True, d)
         else (case insert_answer (sentinel_answer now matchId (p_qid p) oppId (p_maxSec p)) d of
                 None \<Rightarrow> (Inl ServerError, d)
               | Some d3 \<Rightarrow> (Inr True, d3)))"

definition answer_finish :: "int \<Rightarrow> answer_plan \<Rightarrow> int \<Rightarrow> int \<Rightarrow> db \<Rightarrow> (error + bool) \<times> db" where
  \<comment> \<open>the statements from the insert on, with no other statement in between\<close>
  "answer_finish now p matchId userId d =
     (case answer_insert p d d of
        None \<Rightarrow> (Inl ServerError, d)
      | Some (False, d2) \<Rightarrow> (Inl QuestionLocked, d2)
      | Some (True, d2) \<Rightarrow>
          if m_mode (p_match p) = Speed then answer_sentinel now p matchId userId d2 d2
          else (Inr False, d2))"

definition submitAnswer ::
  "(string \<Rightarrow> string) \<Rightarrow> int \<Rightarrow> int \<Rightarrow> int \<Rightarrow> int \<Rightarrow> string option \<Rightarrow> int option \<Rightarrow> int option
   \<Rightarrow> db \<Rightarrow> (error + bool) \<times> db" where
  "submitAnswer unicode_lower perq now matchId userId raw tls mls d =
     (case answer_prepare unicode_lower perq now matchId userId raw tls mls d of
        (Inl e, d1) \<Rightarrow> (Inl e, d1)
      | (Inr p, d1) \<Rightarrow> answer_finish now p matchId userId d1)"

subsection \<open>POST /api/duello/match/:matchId/reveal\<close>

text \<open>
  Two calls for the same match whose insert statements overlap: both calls run their
  statements up to the insert; the two inserts start before either has committed, so the
  snapshot of both is the table without the other's row; then each call runs its
  remaining statements. The result is \<open>None\<close> when a call ends before its insert or
  an insert writes nothing.
\<close>

definition overlapping_answers ::
  "(string \<Rightarrow> string) \<Rightarrow> int \<Rightarrow> int \<Rightarrow> int \<Rightarrow> int \<Rightarrow> string option \<Rightarrow> int \<Rightarrow> string option \<Rightarrow> db
   \<Rightarrow> ((error + bool) \<times> (error + bool) \<times> db) option" where
  "overlapping_answers unicode_lower perq now matchId userA rawA userB rawB d =
     (case answer_prepare unicode_lower perq now matchId userA rawA None None d of
        (Inl e, d1) \<Rightarrow> None
      | (Inr pa, d1) \<Rightarrow>
         (case answer_prepare unicode_lower perq now matchId userB rawB None None d1 of
            (Inl e, d2) \<Rightarrow> None
          | (Inr pb, d2) \<Rightarrow>
             (case answer_insert pa d2 d2 of
                Some (True, d3) \<Rightarrow>
                  (case answer_insert pb d2 d3 of
                     Some (True, d4) \<Rightarrow>
                       (case answer_sentinel now pa matchId userA d4 d4 of
                          (ra, d5) \<Rightarrow>
                            (case answer_sentinel now pb matchId userB d5 d5 of
                               (rb, d6) \<Rightarrow> Some (ra, rb, d6)))
                   | _ \<Rightarrow> None)
              | _ \<Rightarrow> None)))"

definition finish_by_id :: "int \<Rightarrow> int \<Rightarrow> db \<Rightarrow> db" where
  \<comment> \<open>\<open>UPDATE duello_matches SET state='finished', finished_at=now WHERE id=$1\<close>\<close>
  "finish_by_id now matchId d =
     d\<lparr>duello_matches :=
         map (\<lambda>m. if m_id m = matchId then m\<lparr>m_state := Finished, finished_at := Some now\<rparr> else m)
             (duello_matches d)\<rparr>"

definition finish_last :: "int \<Rightarrow> int \<Rightarrow> int \<Rightarrow> db \<Rightarrow> db" where
  \<comment> \<open>\<open>UPDATE duello_matches SET current_index=$2, state='finished', finished_at=now
       WHERE id=$1\<close>\<close>
  "finish_last now matchId nextIdx d =
     d\<lparr>duello_matches :=
         map (\<lambda>m. if m_id m = matchId
                   then m\<lparr>current_index := nextIdx, m_state := Finished, finished_at := Some now\<rparr>
                   else m)
             (duello_matches d)\<rparr>"

definition set_index :: "int \<Rightarrow> int \<Rightarrow> db \<Rightarrow> db" where
  \<comment> \<open>\<open>UPDATE duello_matches SET current_index=$2 WHERE id=$1\<close>\<close>
  "set_index matchId nextIdx d =
     d\<lparr>duello_matches :=
         map (\<lambda>m. if m_id m = matchId then m\<lparr>current_index := nextIdx\<rparr> else m)
             (duello_matches d)\<rparr>"

definition finished_notices :: "match_row \<Rightarrow> notice list" where
  "finished_notices m =
     [(user_a_id m, MatchFinished (m_id m)), (user_b_id m, MatchFinished (m_id m))]"

definition info_autofill :: "int \<Rightarrow> int \<Rightarrow> match_row \<Rightarrow> int \<Rightarrow> int \<Rightarrow> db \<Rightarrow> bool \<times> db" where
  \<comment> \<open>info mode: both existence reads first, then a sentinel for each side that had no
      answer; \<open>False\<close> when an insert throws, with what was written before it\<close>
  "info_autofill perq now m matchId qid d =
     (let aId = user_a_id m; bId = user_b_id m;
          aAns = (answers_of d matchId qid aId \<noteq> []);
          bAns = (answers_of d matchId qid bId \<noteq> []);
          ra = (if aAns then Some d else insert_answer (sentinel_answer now matchId qid aId perq) d)
      in case ra of
           None \<Rightarrow> (False, d)
         | Some da \<Rightarrow>
             if bAns then (True, da)
             else (case insert_answer (sentinel_answer now matchId qid bId perq) da of
                     None \<Rightarrow> (False, da)
                   | Some dab \<Rightarrow> (True, dab)))"

definition reveal_autofill :: "int \<Rightarrow> int \<Rightarrow> match_row \<Rightarrow> int \<Rightarrow> int \<Rightarrow> db \<Rightarrow> bool \<times> db" where
  \<comment> \<open>the block \<open>if (String(m.mode) === "info") { ... }\<close>\<close>
  "reveal_autofill perq now m matchId qid d =
     (if m_mode m = Info then info_autofill perq now m matchId qid d else (True, d))"

text \<open>
  The handler after its first statement \<open>const m = await duelloGetMatch(matchId)\<close>:
  \<open>m\<close> is the row that statement read, \<open>d\<close> the database the later statements run on.
  The result \<open>Inr (finished, current_index)\<close> is the response
  \<open>{ success: true, finished, current_index }\<close>.
\<close>

definition reveal_from ::
  "int \<Rightarrow> int \<Rightarrow> int \<Rightarrow> int \<Rightarrow> match_row \<Rightarrow> db \<Rightarrow> (error + bool \<times> int) \<times> db \<times> notice list" where
  "reveal_from perq now matchId userId m d =
     (if m_state m \<noteq> Active then (Inr (True, current_index m), d, finished_notices m)
      else if \<not> inThisMatch m userId then (Inl Forbidden, d, [])
      else
        (let d1 = touch_liveness now matchId userId d;
             total = total_questions m;
             currentPos = current_index m + 1
         in if total < currentPos
            then (Inr (True, total), finish_by_id now matchId d1, finished_notices m)
            else case duelloGetQuestionIdByPos d1 matchId currentPos of
              None \<Rightarrow> (Inr (True, total), finish_by_id now matchId d1, finished_notices m)
            | Some qid \<Rightarrow>
               (case reveal_autofill perq now m matchId qid d1 of
                  (False, d2) \<Rightarrow> (Inl ServerError, d2, [])
                | (True, d2) \<Rightarrow>
                    if 2 \<le> length (answers_for d2 matchId qid) then
                      (let nextIdx = current_index m + 1
                       in if total_questions m \<le> nextIdx
                          then (Inr (True, nextIdx), finish_last now matchId nextIdx d2,
                                finished_notices m)
                          else (Inr (False, nextIdx), set_index matchId nextIdx d2, []))
                    else (Inr (False, current_index m), d2, []))))"

definition reveal ::
  "int \<Rightarrow> int \<Rightarrow> int \<Rightarrow> int \<Rightarrow> db \<Rightarrow> (error + bool \<times> int) \<times> db \<times> notice list" where
  "reveal perq now matchId userId d =
     (if matchId = 0 \<or> userId = 0 then (Inl MissingIds, d, [])
      else case duelloGetMatch d matchId of
        None \<Rightarrow> (Inl MatchNotFound, d, [])
      | Some m \<Rightarrow> reveal_from perq now matchId userId m d)"

subsection \<open>The idle sweeper\<close>

definition idle_expired :: "int \<Rightarrow> int \<Rightarrow> match_row \<Rightarrow> bool" where
  \<comment> \<open>the \<open>WHERE\<close> clause of the sweeper's update; \<open>TIMESTAMP 'epoch'\<close> is \<open>0\<close>\<close>
  "idle_expired now sec m =
     (m_state m = Active \<and>
      ((case last_seen_a m of None \<Rightarrow> 0 | Some t \<Rightarrow> t) < now - sec \<or>
       (case last_seen_b m of None \<Rightarrow> 0 | Some t \<Rightarrow> t) < now - sec) \<and>
      current_index m < total_questions m)"

definition abandon :: "int \<Rightarrow> match_row \<Rightarrow> match_row" where
  "abandon now m =
     m\<lparr>m_state := Abandoned, ended_reason := Some ''idle_timeout'', finished_at := Some now,
       abandoned_at := Some now\<rparr>"

definition abandoned_notices :: "match_row \<Rightarrow> notice list" where
  "abandoned_notices m =
     [(user_a_id m, MatchAbandoned (m_id m)), (user_b_id m, MatchAbandoned (m_id m))]"

text \<open>
  \<open>env\<close> is the environment variable \<open>DUELLO_IDLE_ABORT_SEC\<close>. When the constant is
  \<open>NaN\<close> the statement \<open>interval 'NaN seconds'\<close> is rejected by the database, the
  \<open>catch\<close> logs it, and the tick changes nothing.
\<close>

definition duelloIdleAbortTick :: "string option \<Rightarrow> int \<Rightarrow> db \<Rightarrow> db \<times> notice list" where
  "duelloIdleAbortTick env now d =
     (case DUELLO_IDLE_ABORT_SEC env of
        None \<Rightarrow> (d, [])
      | Some sec \<Rightarrow>
          (d\<lparr>duello_matches :=
               map (\<lambda>m. if idle_expired now sec m then abandon now m else m) (duello_matches d)\<rparr>,
           concat (map abandoned_notices (filter (idle_expired now sec) (duello_matches d)))))"

subsection \<open>The question set\<close>

definition existing_set :: "db \<Rightarrow> int \<Rightarrow> mq_row list" where
  \<comment> \<open>\<open>SELECT pos, question_id FROM duello_match_questions WHERE match_id=$1 ORDER BY pos ASC\<close>\<close>
  "existing_set d matchId =
     sort_key pos (filter (\<lambda>r. mq_match_id r = matchId) (duello_match_questions d))"

definition approved_pool :: "db \<Rightarrow> int list" where
  \<comment> \<open>\<open>SELECT q.id FROM questions q JOIN surveys s ON s.id = q.survey_id
       WHERE s.status='approved'\<close>\<close>
  "approved_pool d =
     concat (map (\<lambda>q. map (\<lambda>s. q_id q)
                         (filter (\<lambda>s. q_survey_id q = Some (s_id s) \<and> s_status s = Some ''approved'')
                                 (surveys d)))
                 (questions d))"

definition seed_key :: "(string \<Rightarrow> nat) \<Rightarrow> int \<Rightarrow> int \<Rightarrow> nat" where
  \<comment> \<open>\<open>md5($1::text || '-' || q.id::text)\<close>; \<open>md5\<close> is the database's digest, read as
      a number\<close>
  "seed_key md5 matchId qid = md5 (text_of_int matchId @ ''-'' @ text_of_int qid)"

definition total_of :: "match_row \<Rightarrow> int" where
  \<comment> \<open>\<open>Math.max(1, Number(match.total_questions) || 12)\<close>\<close>
  "total_of m = max 1 (if total_questions m = 0 then 12 else total_questions m)"

definition select_question_ids :: "(string \<Rightarrow> nat) \<Rightarrow> match_row \<Rightarrow> db \<Rightarrow> int list" where
  \<comment> \<open>\<open>... ORDER BY md5(...) LIMIT total\<close>\<close>
  "select_question_ids md5 m d =
     take (nat (total_of m)) (sort_key (seed_key md5 (m_id m)) (approved_pool d))"

definition insert_mq :: "mq_row \<Rightarrow> db \<Rightarrow> db" where
  \<comment> \<open>\<open>INSERT ... ON CONFLICT (match_id, pos) DO NOTHING\<close>\<close>
  "insert_mq r d =
     (if filter (\<lambda>x. mq_match_id x = mq_match_id r \<and> pos x = pos r) (duello_match_questions d) \<noteq> []
      then d
      else d\<lparr>duello_match_questions := duello_match_questions d @ [r]\<rparr>)"

fun insert_questions :: "int \<Rightarrow> int \<Rightarrow> int list \<Rightarrow> db \<Rightarrow> db" where
  \<comment> \<open>the loop \<open>for (let i = 0; i < ids.length; i++)\<close>; the second argument is \<open>i + 1\<close>\<close>
  "insert_questions matchId p [] d = d"
| "insert_questions matchId p (q # qs) d =
     insert_questions matchId (p + 1) qs
       (insert_mq \<lparr>mq_match_id = matchId, pos = p, mq_question_id = q\<rparr> d)"

definition ensureDuelloQuestionSet ::
  "(string \<Rightarrow> nat) \<Rightarrow> match_row \<Rightarrow> db \<Rightarrow> mq_row list \<times> db" where
  "ensureDuelloQuestionSet md5 m d =
     (let existing = existing_set d (m_id m)
      in if existing \<noteq> [] then (existing, d)
         else
           (let ids = select_question_ids md5 m d;
                d1 = insert_questions (m_id m) 1 ids d
            in (existing_set d1 (m_id m), d1)))"

subsection \<open>Scores\<close>

definition joined_answers :: "db \<Rightarrow> int \<Rightarrow> (answer_row \<times> question_row) list" where
  \<comment> \<open>\<open>FROM duello_answers da JOIN questions q ON q.id = da.question_id
       WHERE da.match_id = $1\<close>\<close>
  "joined_answers d matchId =
     concat (map (\<lambda>da. map (\<lambda>q. (da, q)) (filter (\<lambda>q. q_id q = a_question_id da) (questions d)))
                 (filter (\<lambda>da. a_match_id da = matchId) (duello_answers d)))"

definition signed_points :: "answer_row \<times> question_row \<Rightarrow> int option" where
  \<comment> \<open>\<open>CASE WHEN da.answer='bilmem' THEN 0 WHEN da.is_correct=1 THEN q.point
       ELSE -q.point END\<close>; \<open>q.point\<close> may be null\<close>
  "signed_points r =
     (if answer (fst r) = bilmem then Some 0
      else if is_correct (fst r) = 1 then point (snd r)
      else map_option uminus (point (snd r)))"

definition sql_sum :: "int option list \<Rightarrow> int option" where
  \<comment> \<open>\<open>SUM\<close>: nulls are skipped; null when no value is left\<close>
  "sql_sum xs =
     (if filter (\<lambda>x. x \<noteq> None) xs = [] then None
      else Some (sum_list (map (\<lambda>x. case x of None \<Rightarrow> 0 | Some v \<Rightarrow> v) xs)))"

definition coalesce0 :: "int option \<Rightarrow> int" where
  "coalesce0 x = (case x of None \<Rightarrow> 0 | Some v \<Rightarrow> v)"

definition int4_ok :: "int \<Rightarrow> bool" where
  \<comment> \<open>the cast \<open>::int\<close> throws outside the 32-bit range\<close>
  "int4_ok v = (- 2147483648 \<le> v \<and> v \<le> 2147483647)"

definition duelloScores :: "db \<Rightarrow> int \<Rightarrow> int \<Rightarrow> int \<Rightarrow> (int \<times> int) option" where
  \<comment> \<open>\<open>None\<close> when the query throws; \<open>Some (score_a, score_b)\<close> otherwise\<close>
  "duelloScores d matchId aId bId =
     (let rows = joined_answers d matchId;
          sa = coalesce0 (sql_sum (map (\<lambda>r. if a_user_id (fst r) = aId then signed_points r
                                              else Some 0) rows));
          sb = coalesce0 (sql_sum (map (\<lambda>r. if a_user_id (fst r) = bId then signed_points r
                                              else Some 0) rows))
      in if int4_ok sa \<and> int4_ok sb then Some (sa, sb) else None)"

record totals_row =
  t_user_id :: int
  t_bilmem :: int
  t_correct :: int
  t_wrong :: int
  t_score :: int

definition totals_of_group :: "int \<Rightarrow> (answer_row \<times> question_row) list \<Rightarrow> totals_row" where
  "totals_of_group u g =
     \<lparr>t_user_id = u,
      t_bilmem = int (length (filter (\<lambda>r. answer (fst r) = bilmem) g)),
      t_correct = int (length (filter (\<lambda>r. answer (fst r) \<noteq> bilmem \<and> is_correct (fst r) = 1) g)),
      t_wrong = int (length (filter (\<lambda>r. answer (fst r) \<noteq> bilmem \<and> is_correct (fst r) = 0) g)),
      t_score = coalesce0 (sql_sum (map signed_points g))\<rparr>"

definition duelloMatchTotals :: "db \<Rightarrow> int \<Rightarrow> (int \<rightharpoonup> totals_row) option" where
  \<comment> \<open>one row per \<open>da.user_id\<close> (\<open>GROUP BY\<close>), then the loop
      \<open>for (const r of rows) map[Number(r.user_id)] = r\<close>; \<open>None\<close> when the query throws\<close>
  "duelloMatchTotals d matchId =
     (let rows = joined_answers d matchId;
          groups = map (\<lambda>u. totals_of_group u (filter (\<lambda>r. a_user_id (fst r) = u) rows))
                       (remdups (map (\<lambda>r. a_user_id (fst r)) rows))
      in if list_all (\<lambda>g. int4_ok (t_score g)) groups
         then Some (fold (\<lambda>r tbl. tbl(t_user_id r \<mapsto> r)) groups Map.empty)
         else None)"

definition summary_score :: "(int \<rightharpoonup> totals_row) \<Rightarrow> int \<Rightarrow> int" where
  \<comment> \<open>\<open>(totals[uid] || { bilmem:0, correct:0, wrong:0, score:0 }).score\<close>\<close>
  "summary_score totals uid = (case totals uid of None \<Rightarrow> 0 | Some r \<Rightarrow> t_score r)"

subsection \<open>GET status and summary\<close>

text \<open>
  The status handler, as far as it writes and scores: the result
  \<open>Inr (finished, score_a, score_b)\<close> stands for the response's \<open>finished\<close> flag and
  \<open>scores\<close>; the question and the answers that the response also shows are reads only.
\<close>

definition matchStatus ::
  "(string \<Rightarrow> nat) \<Rightarrow> int \<Rightarrow> int \<Rightarrow> int \<Rightarrow> db \<Rightarrow> (error + bool \<times> int \<times> int) \<times> db" where
  "matchStatus md5 now matchId userId d =
     (if matchId = 0 \<or> userId = 0 then (Inl MissingIds, d)
      else case duelloGetMatch d matchId of
        None \<Rightarrow> (Inl MatchNotFound, d)
      | Some m \<Rightarrow>
          if \<not> inThisMatch m userId then (Inl Forbidden, d)
          else
            (let d1 = touch_liveness_status now matchId userId d;
                 d2 = snd (ensureDuelloQuestionSet md5 m d1)
             in case duelloScores d2 matchId (user_a_id m) (user_b_id m) of
                  None \<Rightarrow> (Inl ServerError, d2)
                | Some (sa, sb) \<Rightarrow>
                    if m_state m = Finished \<or> total_questions m \<le> current_index m
                    then (Inr (True, sa, sb), d2)
                    else (case duelloGetQuestionIdByPos d2 (m_id m) (current_index m + 1) of
                            None \<Rightarrow> (Inr (True, sa, sb), d2)
                          | Some qid \<Rightarrow> (Inr (False, sa, sb), d2))))"

text \<open>
  The summary handler: \<open>Inr (finished, score_a, score_b)\<close> stands for the response's
  \<open>finished\<close> flag and the two \<open>stats.score\<close> fields.
\<close>

definition matchSummary ::
  "(string \<Rightarrow> nat) \<Rightarrow> int \<Rightarrow> int \<Rightarrow> db \<Rightarrow> (error + bool \<times> int \<times> int) \<times> db" where
  "matchSummary md5 matchId userId d =
     (if matchId = 0 \<or> userId = 0 then (Inl MissingIds, d)
      else case duelloGetMatch d matchId of
        None \<Rightarrow> (Inl MatchNotFound, d)
      | Some m \<Rightarrow>
          if user_a_id m \<noteq> userId \<and> user_b_id m \<noteq> userId then (Inl Forbidden, d)
          else
            (let d1 = snd (ensureDuelloQuestionSet md5 m d)
             in case duelloMatchTotals d1 matchId of
                  None \<Rightarrow> (Inl ServerError, d1)
                | Some totals \<Rightarrow>
                    (Inr (m_state m = Finished \<or> total_questions m \<le> current_index m,
                          summary_score totals (user_a_id m),
                          summary_score totals (user_b_id m)), d1)))"

subsection \<open>The system as a transition system\<close>

datatype request =
    CreateInvite int int string string
  | RespondInvite int int string
  | ListInvites
  | MatchStatus int int
  | SubmitAnswer int int "string option" "int option" "int option"
  | Reveal int int
  | MatchSummary int int
  | IdleTick
  | External "user_row list" "survey_row list" "question_row list"

text \<open>
  \<open>ListInvites\<close> is the inbox and the outbox handler, whose only write is
  \<open>expireOldInvites\<close>. \<open>External\<close> is any change that the rest of the server makes to
  users, surveys and questions. The configuration is the database's \<open>md5\<close>, the case
  mapping of the runtime for text that is not ASCII, the number \<open>DUELLO_PER_Q_SEC\<close> and
  the environment variable of the idle threshold.
\<close>

record config =
  cfg_md5 :: "string \<Rightarrow> nat"
  cfg_lower :: "string \<Rightarrow> string"
  cfg_perq :: int
  cfg_idle_env :: "string option"

fun exec :: "config \<Rightarrow> int \<Rightarrow> request \<Rightarrow> db \<Rightarrow> db" where
  "exec cfg now (CreateInvite fromId to_id to_code mode_raw) d =
     fst (snd (createInvite now fromId to_id to_code mode_raw d))"
| "exec cfg now (RespondInvite inviteId userId action_raw) d =
     fst (snd (respondInvite now inviteId userId action_raw d))"
| "exec cfg now ListInvites d = expireOldInvites now d"
| "exec cfg now (MatchStatus matchId userId) d =
     snd (matchStatus (cfg_md5 cfg) now matchId userId d)"
| "exec cfg now (SubmitAnswer matchId userId raw tls mls) d =
     snd (submitAnswer (cfg_lower cfg) (cfg_perq cfg) now matchId userId raw tls mls d)"
| "exec cfg now (Reveal matchId userId) d =
     fst (snd (reveal (cfg_perq cfg) now matchId userId d))"
| "exec cfg now (MatchSummary matchId userId) d =
     snd (matchSummary (cfg_md5 cfg) matchId userId d)"
| "exec cfg now IdleTick d = fst (duelloIdleAbortTick (cfg_idle_env cfg) now d)"
| "exec cfg now (External us ss qs) d = d\<lparr>users := us, surveys := ss, questions := qs\<rparr>"

inductive reachable :: "config \<Rightarrow> db \<Rightarrow> bool" for cfg :: config where
  start: "duello_matches d = [] \<Longrightarrow> reachable cfg d"
| step: "reachable cfg d \<Longrightarrow> reachable cfg (exec cfg now r d)"

definition active_count :: "db \<Rightarrow> int \<Rightarrow> nat" where
  \<comment> \<open>the number of rows with \<open>state='active'\<close> that reference the user\<close>
  "active_count d u =
     length (filter (\<lambda>m. m_state m = Active \<and> references m u) (duello_matches d))"

fun run_accepts :: "(int \<times> int \<times> int) list \<Rightarrow> db \<Rightarrow> (error + respond_ok) list \<times> db" where
  \<comment> \<open>accept calls \<open>(now, invite_id, user_id)\<close>, one after the other\<close>
  "run_accepts [] d = ([], d)"
| "run_accepts ((now, inviteId, userId) # cs) d =
     (case respondInvite now inviteId userId ''accept'' d of
        (r, d1, ns) \<Rightarrow> (case run_accepts cs d1 of (rs, d2) \<Rightarrow> (r # rs, d2)))"

definition invite_touches :: "db \<Rightarrow> int \<Rightarrow> int \<Rightarrow> bool" where
  \<comment> \<open>every invite row with this id has the user as sender or receiver\<close>
  "invite_touches d inviteId u =
     list_all (\<lambda>i. i_id i = inviteId \<longrightarrow> from_user_id i = u \<or> to_user_id i = u) (duello_invites d)"

definition is_accepted :: "error + respond_ok \<Rightarrow> bool" where
  "is_accepted r = (case r of Inr (AcceptedOk m) \<Rightarrow> True | _ \<Rightarrow> False)"

subsection \<open>Example data\<close>

definition demo_users :: "user_row list" where
  "demo_users =
     [\<lparr>u_id = 1, user_code = Some ''AAA111''\<rparr>, \<lparr>u_id = 2, user_code = Some ''BBB222''\<rparr>,
      \<lparr>u_id = 3, user_code = None\<rparr>, \<lparr>u_id = 4, user_code = None\<rparr>,
      \<lparr>u_id = 5, user_code = None\<rparr>, \<lparr>u_id = 6, user_code = None\<rparr>,
      \<lparr>u_id = 7, user_code = None\<rparr>, \<lparr>u_id = 8, user_code = None\<rparr>]"

definition demo_questions :: "question_row list" where
  "demo_questions =
     [\<lparr>q_id = 10, q_survey_id = Some 1, correct_answer = Some evet, point = Some 3\<rparr>,
      \<lparr>q_id = 11, q_survey_id = Some 1, correct_answer = Some hayir, point = Some 2\<rparr>,
      \<lparr>q_id = 12, q_survey_id = Some 2, correct_answer = Some evet, point = Some 5\<rparr>]"

definition demo_db :: db where
  \<comment> \<open>eight users, one approved survey with two questions, no duel rows yet\<close>
  "demo_db =
     \<lparr>users = demo_users,
      surveys = [\<lparr>s_id = 1, s_status = Some ''approved''\<rparr>, \<lparr>s_id = 2, s_status = Some ''pending''\<rparr>],
      questions = demo_questions,
      duello_matches = [], duello_invites = [], duello_match_questions = [],
      duello_answers = [], matches_seq = 0, invites_seq = 0\<rparr>"

definition demo_match :: "duel_mode \<Rightarrow> match_row" where
  \<comment> \<open>a one-question match between users 1 and 2, created at time 1000\<close>
  "demo_match mode = (new_match 1000 1 mode 1 2)\<lparr>total_questions := 1\<rparr>"

definition demo_duel :: "duel_mode \<Rightarrow> db" where
  \<comment> \<open>\<open>demo_db\<close> with that match and its question set (question 10 at position 1)\<close>
  "demo_duel mode =
     demo_db\<lparr>duello_matches := [demo_match mode],
             duello_match_questions := [\<lparr>mq_match_id = 1, pos = 1, mq_question_id = 10\<rparr>],
             matches_seq := 1\<rparr>"

definition demo_lower :: "string \<Rightarrow> string" where
  \<comment> \<open>a stand-in for the case mapping of text that is not ASCII; the examples submit
      ASCII text, on which \<open>toLowerCase\<close> does not use it\<close>
  "demo_lower s = s"

definition demo_idle :: db where
  \<comment> \<open>four matches at time 2050: both sides last seen at 1000; both seen within the
      last 90 seconds; finished; one side never seen\<close>
  "demo_idle =
     demo_db\<lparr>duello_matches :=
        [new_match 1000 1 Info 1 2,
         (new_match 1000 2 Speed 3 4)\<lparr>last_seen_a := Some 1990, last_seen_b := Some 1980\<rparr>,
         (new_match 1000 3 Speed 5 6)\<lparr>m_state := Finished, current_index := 12\<rparr>,
         (new_match 1000 4 Info 7 8)\<lparr>last_seen_a := Some 1990, last_seen_b := None\<rparr>],
        matches_seq := 4\<rparr>"

definition demo_scored :: db where
  \<comment> \<open>a finished two-question match: user 1 right on question 10 and wrong on 11,
      user 2 without an answer on 10 (sentinel) and right on 11\<close>
  "demo_scored =
     demo_db\<lparr>duello_matches :=
               [(new_match 1000 1 Info 1 2)\<lparr>total_questions := 2, current_index := 2,
                                            m_state := Finished, finished_at := Some 1100\<rparr>],
             duello_match_questions :=
               [\<lparr>mq_match_id = 1, pos = 1, mq_question_id = 10\<rparr>,
                \<lparr>mq_match_id = 1, pos = 2, mq_question_id = 11\<rparr>],
             duello_answers :=
               [user_answer 1010 1 10 1 evet 1 16 9,
                sentinel_answer 1020 1 10 2 16,
                user_answer 1030 1 11 2 hayir 1 16 12,
                user_answer 1040 1 11 1 evet 0 16 3],
             matches_seq := 1\<rparr>"

subsection \<open>The score as the specification words it\<close>

definition spec_answer_score :: "answer_row \<Rightarrow> int \<Rightarrow> int" where
  \<comment> \<open>unknown gives 0, correct gives the point value, incorrect gives minus the point
      value\<close>
  "spec_answer_score da point_value =
     (if answer da = bilmem then 0 else if is_correct da = 1 then point_value else - point_value)"

definition spec_signed_sum :: "db \<Rightarrow> int \<Rightarrow> int \<Rightarrow> int" where
  \<comment> \<open>the signed sum over the user's recorded answers of the match; a question without a
      point value counts 0\<close>
  "spec_signed_sum d matchId u =
     sum_list (map (\<lambda>r. spec_answer_score (fst r) (coalesce0 (point (snd r))))
                   (filter (\<lambda>r. a_user_id (fst r) = u) (joined_answers d matchId)))"

subsection \<open>The question set as the specification words it\<close>

definition match_pairs :: "db \<Rightarrow> int \<Rightarrow> (int \<times> int) set" where
  \<comment> \<open>the (position, question id) pairs stored for a match\<close>
  "match_pairs d matchId =
     set (map (\<lambda>r. (pos r, mq_question_id r))
              (filter (\<lambda>r. mq_match_id r = matchId) (duello_match_questions d)))"

fun number_from :: "int \<Rightarrow> int list \<Rightarrow> (int \<times> int) list" where
  \<comment> \<open>the ids paired with the positions \<open>p, p + 1, ...\<close>\<close>
  "number_from p [] = []"
| "number_from p (q # qs) = (p, q) # number_from (p + 1) qs"

definition position_rows :: "int \<Rightarrow> int \<Rightarrow> int list \<Rightarrow> mq_row list" where
  \<comment> \<open>the rows that put the ids at the positions \<open>p, p + 1, ...\<close> of the match\<close>
  "position_rows matchId p qs =
     map (\<lambda>(x, q). \<lparr>mq_match_id = matchId, pos = x, mq_question_id = q\<rparr>) (number_from p qs)"

definition position_taken :: "db \<Rightarrow> int \<Rightarrow> int \<Rightarrow> bool" where
  \<comment> \<open>a row with this \<open>(match_id, pos)\<close> exists\<close>
  "position_taken d matchId x =
     (filter (\<lambda>r. mq_match_id r = matchId \<and> pos r = x) (duello_match_questions d) \<noteq> [])"

definition demo_md5 :: "string \<Rightarrow> nat" where
  \<comment> \<open>a small stand-in for the digest, used in examples only\<close>
  "demo_md5 s = foldl (\<lambda>h c. (h * 5 + of_char c) mod 3) 7 s"

definition demo_fresh_match :: match_row where
  "demo_fresh_match = new_match 1000 1 Info 1 2"

definition demo_fresh :: db where
  \<comment> \<open>a match that has just been accepted: no question set yet\<close>
  "demo_fresh = demo_db\<lparr>duello_matches := [demo_fresh_match], matches_seq := 1\<rparr>"

definition demo_half :: db where
  \<comment> \<open>\<open>demo_fresh\<close> after another call has inserted the row of position 2\<close>
  "demo_half =
     demo_fresh\<lparr>duello_match_questions := [\<lparr>mq_match_id = 1, pos = 2, mq_question_id = 10\<rparr>]\<rparr>"

definition prepared :: "int \<Rightarrow> db \<Rightarrow> db" where
  \<comment> \<open>the database after the two refreshing statements of the invite handler\<close>
  "prepared now d = lazy_finish now (expireOldInvites now d)"

definition demo_stale :: db where
  \<comment> \<open>three rows with \<open>state='active'\<close>: two have used up their twelve questions (one of
      them is user 1's), the third is at question 4\<close>
  "demo_stale =
     demo_db\<lparr>duello_matches :=
        [(new_match 1000 1 Info 1 3)\<lparr>current_index := 12\<rparr>,
         (new_match 1000 2 Speed 5 6)\<lparr>current_index := 12\<rparr>,
         (new_match 1000 3 Speed 7 8)\<lparr>current_index := 4\<rparr>],
        matches_seq := 3\<rparr>"

definition demo_speed_first :: "(error + bool) \<times> db" where
  \<comment> \<open>speed-mode example: user 1 answers "evet" first\<close>
  "demo_speed_first = submitAnswer demo_lower 16 1010 1 1 (Some ''evet'') (Some 10) (Some 16) (demo_duel Speed)"

definition demo_speed_second :: "(error + bool) \<times> db" where
  \<comment> \<open>then user 2 submits for the same question\<close>
  "demo_speed_second =
     submitAnswer demo_lower 16 1012 1 2 (Some ''evet'') (Some 9) (Some 16) (snd demo_speed_first)"

subsection \<open>Notions for the claims about matches\<close>

definition calm_row :: "match_row \<Rightarrow> match_row \<Rightarrow> bool" where
  \<comment> \<open>a row after a statement that keeps its users and does not make it active\<close>
  "calm_row m m' = (user_a_id m' = user_a_id m \<and> user_b_id m' = user_b_id m \<and>
                    (m_state m' = Active \<longrightarrow> m_state m = Active))"

definition calm :: "db \<Rightarrow> db \<Rightarrow> bool" where
  "calm d d' = list_all2 calm_row (duello_matches d) (duello_matches d')"


definition single_active :: "db \<Rightarrow> bool" where
  "single_active d = (\<forall>u. active_count d u \<le> 1)"

definition accept_failures :: "error set" where
  \<comment> \<open>the errors an accept call can return\<close>
  "accept_failures =
     {MissingIds, InviteNotFound, Forbidden, NotPending, InviteExpired, AlreadyActive, ServerError}"

definition invite_ends :: "db \<Rightarrow> (int \<times> int \<times> int) list" where
  \<comment> \<open>id, sender and receiver of every invite row\<close>
  "invite_ends d = map (\<lambda>i. (i_id i, from_user_id i, to_user_id i)) (duello_invites d)"

definition demo_two_invites :: db where
  \<comment> \<open>two pending invites to user 2, from user 1 and from user 3\<close>
  "demo_two_invites =
     demo_db\<lparr>duello_invites := [new_invite 1900 1 1 2 Info, new_invite 1900 2 3 2 Speed],
             invites_seq := 2\<rparr>"

definition demo_accepts :: "(error + respond_ok) list \<times> db" where
  \<comment> \<open>user 2 accepts the first, then the second\<close>
  "demo_accepts = run_accepts [(2000, 1, 2), (2001, 2, 2)] demo_two_invites"

definition demo_info2 :: db where
  \<comment> \<open>an info-mode match of users 1 and 2 with its question set (11 at position 1, 10 at
      position 2) and no answer yet\<close>
  "demo_info2 = snd (ensureDuelloQuestionSet demo_md5 demo_fresh_match demo_fresh)"

definition demo_info2_first :: "(error + bool \<times> int) \<times> db \<times> notice list" where
  \<comment> \<open>the countdown of the first question ends: user 1's client calls reveal\<close>
  "demo_info2_first = reveal 16 1024 1 1 demo_info2"

definition demo_info2_second :: "(error + bool \<times> int) \<times> db \<times> notice list" where
  \<comment> \<open>and user 2's client calls reveal for the same countdown\<close>
  "demo_info2_second = reveal 16 1024 1 2 (fst (snd demo_info2_first))"

definition demo_race_db :: db where
  \<comment> \<open>the one-question speed match after user 1 has answered: both answers are recorded,
      user 2 was last seen at 1000\<close>
  "demo_race_db = snd demo_speed_first"

definition demo_race_read :: match_row where
  \<comment> \<open>the row that the first statement of reveal reads at time 2000\<close>
  "demo_race_read = hd (duello_matches demo_race_db)"

definition demo_race_swept :: db where
  \<comment> \<open>the sweeper's tick runs next\<close>
  "demo_race_swept = fst (duelloIdleAbortTick None 2000 demo_race_db)"

definition demo_race_end :: "(error + bool \<times> int) \<times> db \<times> notice list" where
  \<comment> \<open>then the remaining statements of the reveal call run\<close>
  "demo_race_end = reveal_from 16 2000 1 1 demo_race_read demo_race_swept"

text \<open>Notions for executions in which the handlers run one at a time.\<close>

definition state_of :: "db \<Rightarrow> int \<Rightarrow> match_state option" where
  \<comment> \<open>\<open>SELECT state FROM duello_matches WHERE id=$1\<close>\<close>
  "state_of d matchId = map_option m_state (duelloGetMatch d matchId)"

definition settled :: "db \<Rightarrow> db \<Rightarrow> bool" where
  \<comment> \<open>every match that is finished or abandoned in the first database has the same state
      in the second\<close>
  "settled d d' = (\<forall>i s. state_of d i = Some s \<and> s \<noteq> Active \<longrightarrow> state_of d' i = Some s)"

fun run_requests :: "config \<Rightarrow> (int \<times> request) list \<Rightarrow> db \<Rightarrow> db" where
  "run_requests cfg [] d = d"
| "run_requests cfg ((now, r) # rs) d = run_requests cfg rs (exec cfg now r d)"

subsection \<open>Examples on a database reached by requests\<close>

definition demo_cfg :: config where
  "demo_cfg = \<lparr>cfg_md5 = demo_md5, cfg_lower = demo_lower, cfg_perq = 16, cfg_idle_env = None\<rparr>"

definition demo_playing :: "string \<Rightarrow> db" where
  \<comment> \<open>user 1 invites user 2 to a duel of the given mode, user 2 accepts, and user 1
      polls the status, which creates the question set (11 at position 1, 10 at 2)\<close>
  "demo_playing mode =
     run_requests demo_cfg
       [(1000, CreateInvite 1 2 [] mode), (1001, RespondInvite 1 2 ''accept''),
        (1002, MatchStatus 1 1)] demo_db"






definition demo_turn_first :: "(error + bool) \<times> db" where
  \<comment> \<open>speed-mode duel: user 1 submits "evet", and the call ends\<close>
  "demo_turn_first =
     submitAnswer demo_lower 16 1010 1 1 (Some ''evet'') None None (demo_playing ''speed'')"

definition demo_turn_second :: "(error + bool) \<times> db" where
  \<comment> \<open>before user 2 submits "no"\<close>
  "demo_turn_second =
     submitAnswer demo_lower 16 1010 1 2 (Some ''no'') None None (snd demo_turn_first)"

definition demo_overlap :: "((error + bool) \<times> (error + bool) \<times> db) option" where
  \<comment> \<open>speed-mode duel: users 1 and 2 submit "evet" and "no" at the same time\<close>
  "demo_overlap =
     overlapping_answers demo_lower 16 1010 1 1 (Some ''evet'') 2 (Some ''no'')
       (demo_playing ''speed'')"


section \<open>Answer normalization\<close>

lemma submitAnswer_atomic:
  "submitAnswer lc perq now matchId userId raw tls mls d =
     (if matchId = 0 \<or> userId = 0 then (Inl MissingIds, d)
      else case duelloGetMatch d matchId of
        None \<Rightarrow> (Inl MatchNotFound, d)
      | Some m \<Rightarrow>
          if m_state m \<noteq> Active then (Inl MatchNotActive, d)
          else if \<not> inThisMatch m userId then (Inl Forbidden, d)
          else
            (let d1 = touch_liveness now matchId userId d
             in case duelloGetQuestionIdByPos d1 (m_id m) (current_index m + 1) of
                  None \<Rightarrow> (Inl NoActiveQuestion, d1)
                | Some qid \<Rightarrow>
                   (case normalizeDuelloAnswer lc (m_mode m) raw of
                      None \<Rightarrow> (Inl NoSkipInSpeedMode, d1)
                    | Some norm \<Rightarrow>
                        if answers_of d1 matchId qid userId \<noteq> [] then (Inl AlreadyAnswered, d1)
                        else
                          (let isCorrect = is_correct_of d1 qid norm;
                               maxSec = max_sec_of perq mls;
                               leftSec = left_sec_of maxSec tls;
                               mine = user_answer now matchId qid userId norm isCorrect maxSec leftSec
                           in if m_mode m = Speed then
                                (if answers_for d1 matchId qid \<noteq> [] then (Inl QuestionLocked, d1)
                                 else
                                   (let d2 = d1\<lparr>duello_answers := duello_answers d1 @ [mine]\<rparr>;
                                        oppId = opponentId m userId
                                    in if answers_of d2 matchId qid oppId \<noteq> [] then (Inr True, d2)
                                       else
                                         (case insert_answer
                                                 (sentinel_answer now matchId qid oppId maxSec) d2 of
                                            None \<Rightarrow> (Inl ServerError, d2)
                                          | Some d3 \<Rightarrow> (Inr True, d3))))
                              else
                                (case insert_answer mine d1 of
                                   None \<Rightarrow> (Inl ServerError, d1)
                                 | Some d2 \<Rightarrow> (Inr False, d2))))))"
  by (auto simp: submitAnswer_def answer_prepare_def answer_finish_def answer_insert_def
        answer_sentinel_def Let_def insert_answer_def user_answer_def
      split: option.splits)




lemma recognised_canonical:
  "evet \<in> set recognised_tokens" "hayir \<in> set recognised_tokens"
  "bilmem \<in> set recognised_tokens"
  by (simp_all add: recognised_tokens_def)





lemma submitAnswer_rows:
  assumes "submitAnswer lc perq now matchId userId raw tls mls d = (Inr locked, d')"
  shows "\<exists>mine rest. duello_answers d' = duello_answers d @ mine # rest \<and>
           a_match_id mine = matchId \<and> a_user_id mine = userId \<and>
           answer mine = normalizeAnswer lc raw \<and>
           (\<forall>r \<in> set rest. answer r = bilmem \<and> is_correct r = 0)"
  using assms
  by (auto simp: submitAnswer_atomic Let_def insert_answer_def touch_liveness_def user_answer_def
      sentinel_answer_def normalizeDuelloAnswer_def
      split: if_splits option.splits)



lemma answer_sentinel_rows:
  assumes "answer_sentinel now p matchId userId seen d = (r, d')"
  shows "duello_answers d' = duello_answers d \<or>
         (\<exists>row. duello_answers d' = duello_answers d @ [row] \<and> answer row = bilmem \<and>
                is_correct row = 0)"
  using assms
  by (auto simp: answer_sentinel_def Let_def insert_answer_def sentinel_answer_def
      split: if_splits)







section \<open>The idle sweeper\<close>

lemma digit_val_digit_char: "d < 10 \<Longrightarrow> digit_val (digit_char d) = Some d"
proof -
  assume "d < 10"
  then have "d \<in> {0, 1, 2, 3, 4, 5, 6, 7, 8, 9}" by auto
  then show ?thesis by (auto simp: digit_val_def digit_char_def)
qed

lemma digit_char_in: "d < 10 \<Longrightarrow> digit_char d \<in> set ''0123456789''"
proof -
  assume "d < 10"
  then have "d \<in> {0, 1, 2, 3, 4, 5, 6, 7, 8, 9}" by auto
  then show ?thesis by (auto simp: digit_char_def)
qed

lemma text_of_nat_digits: "list_all (\<lambda>c. digit_val c \<noteq> None) (text_of_nat n)"
proof (induction n rule: text_of_nat.induct)
  case (1 n)
  show ?case
  proof (cases "n < 10")
    case True
    then show ?thesis by (subst text_of_nat.simps) (simp add: digit_val_digit_char)
  next
    case False
    have "n mod 10 < 10" by simp
    then have "digit_val (digit_char (n mod 10)) \<noteq> None" by (simp add: digit_val_digit_char)
    then show ?thesis using False 1 by (subst text_of_nat.simps) simp
  qed
qed

lemma text_of_nat_nonempty: "text_of_nat n \<noteq> []"
  by (subst text_of_nat.simps) simp

lemma digits_val_snoc:
  "digits_val (ds @ [c]) = 10 * digits_val ds + (case digit_val c of Some d \<Rightarrow> d | None \<Rightarrow> 0)"
  by (simp add: digits_val_def)

lemma digits_val_text: "digits_val (text_of_nat n) = n"
proof (induction n rule: text_of_nat.induct)
  case (1 n)
  show ?case
  proof (cases "n < 10")
    case True
    then show ?thesis
      by (subst text_of_nat.simps) (simp add: digits_val_def digit_val_digit_char)
  next
    case False
    have "digits_val (text_of_nat (n div 10) @ [digit_char (n mod 10)]) = 10 * (n div 10) + n mod 10"
      using 1 False by (simp add: digits_val_snoc digit_val_digit_char)
    then show ?thesis using False by (subst text_of_nat.simps) simp
  qed
qed

lemma strip_no_space:
  assumes "c \<notin> set [CHR 0x09, CHR 0x0A, CHR 0x0B, CHR 0x0C, CHR 0x0D, CHR 0x20,
                      CHR 0xC2, CHR 0xE1, CHR 0xE2, CHR 0xE3, CHR 0xEF]"
  shows "js_trimStart (c # s) = c # s"
  unfolding js_trimStart_def
  using assms by (subst strip.simps) (auto simp: js_white_space_def)

lemma text_of_nat_hd: "\<exists>c s. text_of_nat n = c # s \<and> c \<in> set ''0123456789''"
proof (induction n rule: text_of_nat.induct)
  case (1 n)
  show ?case
  proof (cases "n < 10")
    case True
    then show ?thesis by (subst text_of_nat.simps) (simp add: digit_char_in del: set_simps)
  next
    case False
    then obtain c s where "text_of_nat (n div 10) = c # s" "c \<in> set ''0123456789''"
      using 1 by blast
    then show ?thesis using False by (subst text_of_nat.simps) simp
  qed
qed

lemma parseInt10_digits:
  assumes "ds \<noteq> []" "list_all (\<lambda>c. digit_val c \<noteq> None) ds" "js_trimStart (sg @ ds) = sg @ ds"
      and "sg = [] \<or> sg = ''-''"
  shows "parseInt10 (sg @ ds) = Some (if sg = [] then int (digits_val ds) else - int (digits_val ds))"
proof -
  have tw: "takeWhile (\<lambda>c. digit_val c \<noteq> None) ds = ds"
    using assms(2) by (simp add: list_all_iff takeWhile_eq_all_conv del: not_None_eq)
  have d: "digit_val (hd ds) \<noteq> None"
    using assms(1,2) by (cases ds) (simp_all del: not_None_eq)
  have sign: "hd ds \<noteq> CHR ''-''" "hd ds \<noteq> CHR ''+''"
    using d by (auto simp: digit_val_def)
  show ?thesis
    using assms(4)
  proof
    assume "sg = []"
    then show ?thesis
      unfolding parseInt10_def Let_def assms(3)
      using assms(1) sign by (simp add: tw del: not_None_eq)
  next
    assume "sg = ''-''"
    then show ?thesis
      unfolding parseInt10_def Let_def assms(3)
      using assms(1) by (simp add: tw del: not_None_eq)
  qed
qed

lemma parseInt10_int: "parseInt10 (text_of_int n) = Some n"
proof -
  let ?ds = "text_of_nat (nat \<bar>n\<bar>)"
  let ?sg = "if n < 0 then ''-'' else []"
  obtain c s where cs: "?ds = c # s" "c \<in> set ''0123456789''"
    using text_of_nat_hd by blast
  have t: "js_trimStart (?sg @ ?ds) = ?sg @ ?ds"
  proof (cases "n < 0")
    case True
    have "js_trimStart (CHR ''-'' # ?ds) = CHR ''-'' # ?ds" by (intro strip_no_space) auto
    then show ?thesis using True by simp
  next
    case False
    have "js_trimStart (c # s) = c # s" using cs(2) by (intro strip_no_space) auto
    then show ?thesis using False cs(1) by simp
  qed
  have "parseInt10 (?sg @ ?ds) = Some (if ?sg = [] then int (digits_val ?ds) else - int (digits_val ?ds))"
    using text_of_nat_nonempty text_of_nat_digits t by (intro parseInt10_digits) auto
  moreover have "text_of_int n = ?sg @ ?ds"
    by (simp add: text_of_int_def) 
  ultimately show ?thesis by (simp add: digits_val_text)
qed

lemma idle_sec_bounds:
  assumes "DUELLO_IDLE_ABORT_SEC env = Some sec"
  shows "30 \<le> sec \<and> sec \<le> 600"
  using assms by (auto simp: DUELLO_IDLE_ABORT_SEC_def split: option.splits)

lemma idle_sec_default: "DUELLO_IDLE_ABORT_SEC None = Some 90 \<and> DUELLO_IDLE_ABORT_SEC (Some []) = Some 90"
  by code_simp

lemma idle_sec_configured:
  "DUELLO_IDLE_ABORT_SEC (Some (text_of_int n)) = Some (max 30 (min 600 n))"
proof -
  have "text_of_int n \<noteq> []"
    using text_of_nat_nonempty by (simp add: text_of_int_def)
  then show ?thesis
    by (simp add: DUELLO_IDLE_ABORT_SEC_def env_or_def parseInt10_int)
qed

lemma idle_sec_text:
  "text \<noteq> [] \<Longrightarrow>
   DUELLO_IDLE_ABORT_SEC (Some text) = map_option (\<lambda>n. max 30 (min 600 n)) (parseInt10 text)"
  by (simp add: DUELLO_IDLE_ABORT_SEC_def env_or_def split: option.splits)

lemma idle_tick_not_a_number:
  assumes "DUELLO_IDLE_ABORT_SEC env = None"
  shows "duelloIdleAbortTick env now d = (d, [])"
  using assms by (simp add: duelloIdleAbortTick_def)

text \<open>
  What a tick does. The threshold is 90 when the variable is unset or empty; when it is
  set to the decimal numeral of \<open>n\<close>, or to any text that \<open>parseInt\<close> reads as
  \<open>n\<close>, it is \<open>n\<close> clamped to 30..600; when \<open>parseInt\<close> finds no number in the
  text, there is no threshold (\<open>NaN\<close>) and a tick changes nothing and notifies nobody.
  With a threshold \<open>sec\<close>, a tick rewrites exactly the rows that are active, have a
  side whose \<open>last_seen\<close> (null read as the epoch) is older than \<open>now - sec\<close>, and
  have \<open>current_index < total_questions\<close>: each becomes abandoned with reason
  \<open>idle_timeout\<close>; every other row, so every row that is not active, stays as it is,
  and no other table changes. The notices are, for each row abandoned in the tick in
  turn, one \<open>match:abandoned\<close> to its user a and one to its user b, and nothing else.
\<close>

lemma idle_sweep_tick:
  "(env = None \<or> env = Some [] \<longrightarrow> DUELLO_IDLE_ABORT_SEC env = Some 90) \<and>
   (\<forall>n. DUELLO_IDLE_ABORT_SEC (Some (text_of_int n)) = Some (max 30 (min 600 n))) \<and>
   (\<forall>text. text \<noteq> [] \<longrightarrow>
      DUELLO_IDLE_ABORT_SEC (Some text) = map_option (\<lambda>n. max 30 (min 600 n)) (parseInt10 text)) \<and>
   (DUELLO_IDLE_ABORT_SEC env = None \<longrightarrow> duelloIdleAbortTick env now d = (d, [])) \<and>
   (\<forall>sec. DUELLO_IDLE_ABORT_SEC env = Some sec \<longrightarrow>
      30 \<le> sec \<and> sec \<le> 600 \<and>
      duello_matches (fst (duelloIdleAbortTick env now d)) =
        map (\<lambda>m. if m_state m = Active \<and>
                     ((case last_seen_a m of None \<Rightarrow> 0 | Some t \<Rightarrow> t) < now - sec \<or>
                      (case last_seen_b m of None \<Rightarrow> 0 | Some t \<Rightarrow> t) < now - sec) \<and>
                     current_index m < total_questions m
                  then m\<lparr>m_state := Abandoned, ended_reason := Some ''idle_timeout'',
                         finished_at := Some now, abandoned_at := Some now\<rparr>
                  else m)
            (duello_matches d) \<and>
      snd (duelloIdleAbortTick env now d) =
        concat (map (\<lambda>m. [(user_a_id m, MatchAbandoned (m_id m)),
                            (user_b_id m, MatchAbandoned (m_id m))])
                    (filter (\<lambda>m. m_state m = Active \<and>
                       ((case last_seen_a m of None \<Rightarrow> 0 | Some t \<Rightarrow> t) < now - sec \<or>
                        (case last_seen_b m of None \<Rightarrow> 0 | Some t \<Rightarrow> t) < now - sec) \<and>
                       current_index m < total_questions m)
                      (duello_matches d))) \<and>
      (fst (duelloIdleAbortTick env now d))\<lparr>duello_matches := duello_matches d\<rparr> = d)"
proof -
  have tick: "duelloIdleAbortTick env now d =
      (d\<lparr>duello_matches :=
           map (\<lambda>m. if idle_expired now sec m then abandon now m else m) (duello_matches d)\<rparr>,
       concat (map abandoned_notices (filter (idle_expired now sec) (duello_matches d))))"
    if "DUELLO_IDLE_ABORT_SEC env = Some sec" for sec
    using that by (simp add: duelloIdleAbortTick_def)
  have dflt: "env = None \<or> env = Some [] \<longrightarrow> DUELLO_IDLE_ABORT_SEC env = Some 90"
    using idle_sec_default by auto
  have nan: "DUELLO_IDLE_ABORT_SEC env = None \<longrightarrow> duelloIdleAbortTick env now d = (d, [])"
    using idle_tick_not_a_number by blast
  have num: "30 \<le> sec \<and> sec \<le> 600 \<and>
      duello_matches (fst (duelloIdleAbortTick env now d)) =
        map (\<lambda>m. if m_state m = Active \<and>
                     ((case last_seen_a m of None \<Rightarrow> 0 | Some t \<Rightarrow> t) < now - sec \<or>
                      (case last_seen_b m of None \<Rightarrow> 0 | Some t \<Rightarrow> t) < now - sec) \<and>
                     current_index m < total_questions m
                  then m\<lparr>m_state := Abandoned, ended_reason := Some ''idle_timeout'',
                         finished_at := Some now, abandoned_at := Some now\<rparr>
                  else m)
            (duello_matches d) \<and>
      snd (duelloIdleAbortTick env now d) =
        concat (map (\<lambda>m. [(user_a_id m, MatchAbandoned (m_id m)),
                            (user_b_id m, MatchAbandoned (m_id m))])
                    (filter (\<lambda>m. m_state m = Active \<and>
                       ((case last_seen_a m of None \<Rightarrow> 0 | Some t \<Rightarrow> t) < now - sec \<or>
                        (case last_seen_b m of None \<Rightarrow> 0 | Some t \<Rightarrow> t) < now - sec) \<and>
                       current_index m < total_questions m)
                      (duello_matches d))) \<and>
      (fst (duelloIdleAbortTick env now d))\<lparr>duello_matches := duello_matches d\<rparr> = d"
    if s: "DUELLO_IDLE_ABORT_SEC env = Some sec" for sec
  proof -
    have e: "idle_expired now sec = (\<lambda>m. m_state m = Active \<and>
                       ((case last_seen_a m of None \<Rightarrow> 0 | Some t \<Rightarrow> t) < now - sec \<or>
                        (case last_seen_b m of None \<Rightarrow> 0 | Some t \<Rightarrow> t) < now - sec) \<and>
                       current_index m < total_questions m)"
      by (rule ext) (simp add: idle_expired_def)
    have a: "abandon now = (\<lambda>m. m\<lparr>m_state := Abandoned, ended_reason := Some ''idle_timeout'',
                         finished_at := Some now, abandoned_at := Some now\<rparr>)"
      by (rule ext) (simp add: abandon_def)
    have n: "abandoned_notices = (\<lambda>m. [(user_a_id m, MatchAbandoned (m_id m)),
                            (user_b_id m, MatchAbandoned (m_id m))])"
      by (rule ext) (simp add: abandoned_notices_def)
    show ?thesis
      using idle_sec_bounds [OF s] unfolding tick [OF s] e a n by simp
  qed
  show ?thesis
    using dflt nan num idle_sec_configured idle_sec_text by blast
qed

lemma demo_idle_facts:
  "text_of_int 45 = ''45'' \<and> text_of_int 1000 = ''1000'' \<and> text_of_int 7 = ''7'' \<and>
   parseInt10 ''120s'' = Some 120 \<and>
   map m_state (duello_matches (fst (duelloIdleAbortTick (Some ''45'') 2050 demo_idle)))
     = [Abandoned, Abandoned, Finished, Abandoned]"
  by code_simp

lemma demo_idle_states:
  "map m_state (duello_matches (fst (duelloIdleAbortTick None 2050 demo_idle)))
     = [Abandoned, Active, Finished, Abandoned]"
  by code_simp

lemma demo_idle_notices:
  "snd (duelloIdleAbortTick None 2050 demo_idle)
     = [(1, MatchAbandoned 1), (2, MatchAbandoned 1), (7, MatchAbandoned 4), (8, MatchAbandoned 4)]"
  by code_simp

lemma idle_sweep_tick_example:
  "DUELLO_IDLE_ABORT_SEC None = Some 90 \<and>
   DUELLO_IDLE_ABORT_SEC (Some ''45'') = Some 45 \<and>
   DUELLO_IDLE_ABORT_SEC (Some ''1000'') = Some 600 \<and>
   DUELLO_IDLE_ABORT_SEC (Some ''7'') = Some 30 \<and>
   DUELLO_IDLE_ABORT_SEC (Some ''120s'') = Some 120 \<and>
   map m_state (duello_matches (fst (duelloIdleAbortTick None 2050 demo_idle)))
     = [Abandoned, Active, Finished, Abandoned] \<and>
   map m_state (duello_matches (fst (duelloIdleAbortTick (Some ''45'') 2050 demo_idle)))
     = [Abandoned, Abandoned, Finished, Abandoned] \<and>
   snd (duelloIdleAbortTick None 2050 demo_idle)
     = [(1, MatchAbandoned 1), (2, MatchAbandoned 1), (7, MatchAbandoned 4), (8, MatchAbandoned 4)] \<and>
   snd (duelloIdleAbortTick None 2050 demo_idle)
     = concat (map (\<lambda>m. [(user_a_id m, MatchAbandoned (m_id m)),
                           (user_b_id m, MatchAbandoned (m_id m))])
                   (filter (\<lambda>m. m_state m = Active \<and>
                       ((case last_seen_a m of None \<Rightarrow> 0 | Some t \<Rightarrow> t) < 2050 - 90 \<or>
                        (case last_seen_b m of None \<Rightarrow> 0 | Some t \<Rightarrow> t) < 2050 - 90) \<and>
                       current_index m < total_questions m)
                      (duello_matches demo_idle)))"
proof -
  note t = idle_sweep_tick [of None 2050 demo_idle]
  have d: "DUELLO_IDLE_ABORT_SEC None = Some 90" using t by blast
  have c: "DUELLO_IDLE_ABORT_SEC (Some (text_of_int n)) = Some (max 30 (min 600 n))" for n
    using t by blast
  have x: "DUELLO_IDLE_ABORT_SEC (Some ''120s'') = map_option (\<lambda>n. max 30 (min 600 n)) (parseInt10 ''120s'')"
    using t by blast
  have n: "snd (duelloIdleAbortTick None 2050 demo_idle)
     = concat (map (\<lambda>m. [(user_a_id m, MatchAbandoned (m_id m)),
                           (user_b_id m, MatchAbandoned (m_id m))])
                   (filter (\<lambda>m. m_state m = Active \<and>
                       ((case last_seen_a m of None \<Rightarrow> 0 | Some t \<Rightarrow> t) < 2050 - 90 \<or>
                        (case last_seen_b m of None \<Rightarrow> 0 | Some t \<Rightarrow> t) < 2050 - 90) \<and>
                       current_index m < total_questions m)
                      (duello_matches demo_idle)))"
    using t d by blast
  have "DUELLO_IDLE_ABORT_SEC (Some ''45'') = Some 45"
       "DUELLO_IDLE_ABORT_SEC (Some ''1000'') = Some 600"
       "DUELLO_IDLE_ABORT_SEC (Some ''7'') = Some 30"
    using c [of 45] c [of 1000] c [of 7] demo_idle_facts by simp_all
  moreover have "DUELLO_IDLE_ABORT_SEC (Some ''120s'') = Some 120"
    using x demo_idle_facts by simp
  ultimately show ?thesis
    using d n demo_idle_facts demo_idle_states demo_idle_notices by simp
qed

text \<open>
  Claim C5. The code breaks it when the variable is set to a text without a number, such
  as "abc": \<open>parseInt\<close> gives \<open>NaN\<close>, which passes through \<open>Math.min\<close> and
  \<open>Math.max\<close>, so the threshold is not clamped to 30..600 as the comment at the
  constant says (min 30, max 600); the statement of every tick is rejected and the error
  is logged. In the example the first match has both sides last seen 1050 seconds ago,
  more than the greatest threshold of 600, and the tick neither abandons it nor notifies
  anybody. For every numeric setting the tick does what the claim says (lemma
  \<open>idle_sweep_tick\<close>).
\<close>

theorem idle_tick_without_threshold:
  "DUELLO_IDLE_ABORT_SEC (Some ''abc'') = None \<and>
   map (\<lambda>m. (m_state m, last_seen_a m, last_seen_b m, current_index m, total_questions m))
       (take 1 (duello_matches demo_idle))
     = [(Active, Some 1000, Some 1000, 0, 12)] \<and>
   idle_expired 2050 600 (hd (duello_matches demo_idle)) \<and>
   duelloIdleAbortTick (Some ''abc'') 2050 demo_idle = (demo_idle, []) \<and>
   map m_state (duello_matches (fst (duelloIdleAbortTick (Some ''abc'') 2050 demo_idle)))
     = [Active, Active, Finished, Active]"
  by code_simp

section \<open>Scores\<close>

lemma coalesce0_sql_sum:
  "coalesce0 (sql_sum xs) = sum_list (map coalesce0 xs)"
proof (cases "filter (\<lambda>x. x \<noteq> None) xs = []")
  case True
  then have "\<forall>x \<in> set xs. x = None"
    by (simp add: filter_empty_conv)
  then have "sum_list (map coalesce0 xs) = 0"
    by (induction xs) (auto simp: coalesce0_def)
  then show ?thesis using True by (simp add: sql_sum_def coalesce0_def)
next
  case False
  have "coalesce0 (Some (sum_list (map coalesce0 xs))) = sum_list (map coalesce0 xs)"
    by (simp add: coalesce0_def)
  moreover have "(\<lambda>x. case x of None \<Rightarrow> 0 | Some v \<Rightarrow> v) = coalesce0"
    by (simp add: coalesce0_def fun_eq_iff)
  ultimately show ?thesis using False by (simp add: sql_sum_def)
qed

lemma masked_sum:
  "sum_list (map (\<lambda>r. coalesce0 (if a_user_id (fst r) = u then signed_points r else Some 0)) rows)
     = sum_list (map (\<lambda>r. coalesce0 (signed_points r)) (filter (\<lambda>r. a_user_id (fst r) = u) rows))"
  by (induction rows) (auto simp: coalesce0_def)

lemma signed_points_spec:
  "coalesce0 (signed_points r) = spec_answer_score (fst r) (coalesce0 (point (snd r)))"
  by (cases "point (snd r)") (simp_all add: signed_points_def spec_answer_score_def coalesce0_def)

lemma fold_totals_lookup:
  assumes "\<And>k. t_user_id (g k) = k"
  shows "fold (\<lambda>r tbl. tbl(t_user_id r \<mapsto> r)) (map g ks) tbl0 u
           = (if u \<in> set ks then Some (g u) else tbl0 u)"
  using assms by (induction ks arbitrary: tbl0) auto

lemma duelloScores_signed_sum:
  assumes "duelloScores d matchId a b = Some (sa, sb)"
  shows "sa = spec_signed_sum d matchId a \<and> sb = spec_signed_sum d matchId b"
  using assms
  by (auto simp: duelloScores_def Let_def coalesce0_sql_sum masked_sum spec_signed_sum_def
      comp_def signed_points_spec split: if_splits)

lemma duelloMatchTotals_signed_sum:
  assumes "duelloMatchTotals d matchId = Some totals"
  shows "summary_score totals u = spec_signed_sum d matchId u"
proof -
  let ?rows = "joined_answers d matchId"
  let ?g = "\<lambda>u. totals_of_group u (filter (\<lambda>r. a_user_id (fst r) = u) ?rows)"
  have tot: "totals = fold (\<lambda>r tbl. tbl(t_user_id r \<mapsto> r))
                (map ?g (remdups (map (\<lambda>r. a_user_id (fst r)) ?rows))) Map.empty"
    using assms by (simp add: duelloMatchTotals_def Let_def split: if_splits)
  have look: "totals u = (if u \<in> set (map (\<lambda>r. a_user_id (fst r)) ?rows) then Some (?g u) else None)"
    unfolding tot by (subst fold_totals_lookup) (simp_all add: totals_of_group_def)
  show ?thesis
  proof (cases "u \<in> set (map (\<lambda>r. a_user_id (fst r)) ?rows)")
    case True
    then show ?thesis
      using look
      by (simp add: summary_score_def totals_of_group_def coalesce0_sql_sum spec_signed_sum_def
          comp_def signed_points_spec)
  next
    case False
    then have "filter (\<lambda>r. a_user_id (fst r) = u) ?rows = []"
      by (auto simp: filter_empty_conv)
    then show ?thesis using look False by (simp add: summary_score_def spec_signed_sum_def)
  qed
qed

text \<open>
  Claim C9. Whenever the status query \<open>duelloScores\<close> and the summary query
  \<open>duelloMatchTotals\<close> both return for a match, the score of each of the two users is
  the same in both, and it is the signed sum over that user's recorded answers: 0 for
  \<open>bilmem\<close>, the point value for a correct answer, minus the point value otherwise.
  This holds in every state of the match, so in particular for a finished one.
\<close>

theorem score_round_trip:
  assumes "duelloScores d matchId a b = Some (sa, sb)"
      and "duelloMatchTotals d matchId = Some totals"
  shows "sa = summary_score totals a \<and> sb = summary_score totals b \<and>
         sa = spec_signed_sum d matchId a \<and> sb = spec_signed_sum d matchId b"
  using duelloScores_signed_sum [OF assms(1)] duelloMatchTotals_signed_sum [OF assms(2)]
  by simp

lemma demo_scored_scores: "duelloScores demo_scored 1 1 2 = Some (1, 2)"
  by code_simp

lemma demo_scored_totals:
  "map_option (\<lambda>t. (summary_score t 1, summary_score t 2)) (duelloMatchTotals demo_scored 1)
     = Some (1, 2)"
  by code_simp

theorem score_round_trip_witness:
  "duelloScores demo_scored 1 1 2 = Some (1, 2) \<and>
   map_option (\<lambda>t. (summary_score t 1, summary_score t 2)) (duelloMatchTotals demo_scored 1)
     = Some (1, 2) \<and>
   spec_signed_sum demo_scored 1 1 = 1 \<and> spec_signed_sum demo_scored 1 2 = 2"
proof -
  from demo_scored_totals obtain t where t: "duelloMatchTotals demo_scored 1 = Some t"
    by (cases "duelloMatchTotals demo_scored 1") auto
  show ?thesis
    using score_round_trip [OF demo_scored_scores t] demo_scored_scores demo_scored_totals
    by simp
qed

section \<open>The question set\<close>

lemma number_from_fst: "(x, y) \<in> set (number_from p qs) \<Longrightarrow> p \<le> x"
  by (induction qs arbitrary: p) force+

lemma number_from_nth:
  "length (number_from p qs) = length qs \<and>
   (\<forall>i < length qs. number_from p qs ! i = (p + int i, qs ! i))"
proof (induction qs arbitrary: p)
  case Nil
  then show ?case by simp
next
  case (Cons q qs)
  have "\<And>i. i < length (q # qs) \<Longrightarrow> number_from p (q # qs) ! i = (p + int i, (q # qs) ! i)"
  proof -
    fix i assume "i < length (q # qs)"
    then show "number_from p (q # qs) ! i = (p + int i, (q # qs) ! i)"
      using Cons.IH [of "p + 1"] by (cases i) auto
  qed
  then show ?case using Cons.IH [of "p + 1"] by simp
qed

lemma insert_mq_frame:
  "(insert_mq r d)\<lparr>duello_match_questions := duello_match_questions d\<rparr> = d"
  by (simp add: insert_mq_def)

lemma insert_questions_frame:
  "(insert_questions matchId p qs d)\<lparr>duello_match_questions := duello_match_questions d\<rparr> = d"
proof (induction qs arbitrary: p d)
  case Nil
  then show ?case by simp
next
  case (Cons q qs)
  let ?d1 = "insert_mq \<lparr>mq_match_id = matchId, pos = p, mq_question_id = q\<rparr> d"
  have "(insert_questions matchId (p + 1) qs ?d1)\<lparr>duello_match_questions := duello_match_questions ?d1\<rparr> = ?d1"
    by (rule Cons.IH)
  then have "(insert_questions matchId (p + 1) qs ?d1)\<lparr>duello_match_questions := duello_match_questions d\<rparr>
      = ?d1\<lparr>duello_match_questions := duello_match_questions d\<rparr>"
    by (metis db.update_convs(6) db.surjective)
  then show ?case by (simp add: insert_mq_frame)
qed

lemma insert_mq_other:
  assumes "mq_match_id r \<noteq> other"
  shows "filter (\<lambda>x. mq_match_id x = other) (duello_match_questions (insert_mq r d))
       = filter (\<lambda>x. mq_match_id x = other) (duello_match_questions d)"
  using assms by (simp add: insert_mq_def)

lemma insert_questions_other:
  assumes "matchId \<noteq> other"
  shows "filter (\<lambda>x. mq_match_id x = other) (duello_match_questions (insert_questions matchId p qs d))
       = filter (\<lambda>x. mq_match_id x = other) (duello_match_questions d)"
  using assms by (induction qs arbitrary: p d) (simp_all add: insert_mq_other)

lemma match_pairs_insert_mq:
  assumes "\<forall>y. (p, y) \<in> match_pairs d matchId \<longrightarrow> y = q"
  shows "match_pairs (insert_mq \<lparr>mq_match_id = matchId, pos = p, mq_question_id = q\<rparr> d) matchId
       = insert (p, q) (match_pairs d matchId)"
proof (cases "filter (\<lambda>x. mq_match_id x = matchId \<and> pos x = p) (duello_match_questions d) = []")
  case True
  then show ?thesis by (simp add: insert_mq_def match_pairs_def)
next
  case False
  then obtain x where x: "x \<in> set (duello_match_questions d)" "mq_match_id x = matchId" "pos x = p"
    by (auto simp: filter_empty_conv)
  then have "(p, mq_question_id x) \<in> match_pairs d matchId"
    by (force simp: match_pairs_def)
  with assms have "(p, q) \<in> match_pairs d matchId" by auto
  then show ?thesis using False by (auto simp: insert_mq_def)
qed

lemma match_pairs_insert_questions:
  assumes "\<forall>x y. (x, y) \<in> match_pairs d matchId \<and> p \<le> x \<longrightarrow> (x, y) \<in> set (number_from p qs)"
  shows "match_pairs (insert_questions matchId p qs d) matchId
           = match_pairs d matchId \<union> set (number_from p qs)"
  using assms
proof (induction qs arbitrary: p d)
  case Nil
  then show ?case by simp
next
  case (Cons q qs)
  let ?d1 = "insert_mq \<lparr>mq_match_id = matchId, pos = p, mq_question_id = q\<rparr> d"
  have uniq: "\<forall>y. (p, y) \<in> match_pairs d matchId \<longrightarrow> y = q"
  proof (intro allI impI)
    fix y assume "(p, y) \<in> match_pairs d matchId"
    with Cons.prems have "(p, y) \<in> set (number_from p (q # qs))" by auto
    then show "y = q" using number_from_fst [of p y "p + 1" qs] by auto
  qed
  have d1: "match_pairs ?d1 matchId = insert (p, q) (match_pairs d matchId)"
    by (rule match_pairs_insert_mq [OF uniq])
  have "\<forall>x y. (x, y) \<in> match_pairs ?d1 matchId \<and> p + 1 \<le> x \<longrightarrow> (x, y) \<in> set (number_from (p + 1) qs)"
    using Cons.prems unfolding d1 by force
  then have "match_pairs (insert_questions matchId (p + 1) qs ?d1) matchId
        = match_pairs ?d1 matchId \<union> set (number_from (p + 1) qs)"
    by (rule Cons.IH)
  then show ?case by (simp add: d1)
qed

lemma existing_set_empty:
  "existing_set d matchId = [] \<longleftrightarrow> match_pairs d matchId = {}"
proof -
  have "existing_set d matchId = [] \<longleftrightarrow> filter (\<lambda>r. mq_match_id r = matchId) (duello_match_questions d) = []"
    unfolding existing_set_def by (metis length_sort length_0_conv)
  then show ?thesis by (auto simp: match_pairs_def filter_empty_conv)
qed

lemma filter_eq_distinct:
  "distinct xs \<Longrightarrow> k \<in> set xs \<Longrightarrow> filter (\<lambda>x. k = x) xs = [k]"
  by (induction xs) (auto simp: filter_empty_conv)

lemma select_pool_order:
  assumes "set (approved_pool d1) = set (approved_pool d2)"
      and "distinct (approved_pool d1)" and "distinct (approved_pool d2)"
      and "inj_on (seed_key md5 (m_id m)) (set (approved_pool d1))"
  shows "select_question_ids md5 m d1 = select_question_ids md5 m d2"
proof -
  let ?f = "seed_key md5 (m_id m)"
  let ?s1 = "sort_key ?f (approved_pool d1)"
  have ms: "mset (approved_pool d1) = mset (approved_pool d2)"
    using assms(1,2,3) by (simp add: set_eq_iff_mset_eq_distinct)
  have "sort_key ?f (approved_pool d2) = ?s1"
  proof (rule properties_for_sort_key)
    show "mset ?s1 = mset (approved_pool d2)"
      using ms by simp
    show "sorted (map ?f ?s1)" by simp
    show "\<And>k. k \<in> set ?s1 \<Longrightarrow>
        filter (\<lambda>x. ?f k = ?f x) ?s1 = filter (\<lambda>x. ?f k = ?f x) (approved_pool d2)"
    proof -
      fix k assume k: "k \<in> set ?s1"
      then have kin: "k \<in> set (approved_pool d1)" by simp
      have e: "\<And>x. x \<in> set (approved_pool d1) \<Longrightarrow> (?f k = ?f x) = (k = x)"
        using assms(4) kin by (auto dest: inj_onD)
      have a: "filter (\<lambda>x. ?f k = ?f x) ?s1 = filter (\<lambda>x. k = x) ?s1"
        by (rule filter_cong) (auto simp: e)
      have b: "filter (\<lambda>x. ?f k = ?f x) (approved_pool d2) = filter (\<lambda>x. k = x) (approved_pool d2)"
        by (rule filter_cong) (auto simp: e assms(1))
      have "filter (\<lambda>x. k = x) ?s1 = [k]"
        using assms(2) k by (intro filter_eq_distinct) simp_all
      moreover have "filter (\<lambda>x. k = x) (approved_pool d2) = [k]"
        using assms(1,3) kin by (intro filter_eq_distinct) simp_all
      ultimately show "filter (\<lambda>x. ?f k = ?f x) ?s1 = filter (\<lambda>x. ?f k = ?f x) (approved_pool d2)"
        using a b by simp
    qed
  qed
  then show ?thesis by (simp add: select_question_ids_def)
qed


lemma ensure_existing:
  assumes "existing_set d (m_id m) \<noteq> []"
  shows "ensureDuelloQuestionSet md5 m d = (existing_set d (m_id m), d)"
  using assms by (simp add: ensureDuelloQuestionSet_def Let_def)

lemma ensure_fresh:
  assumes "existing_set d (m_id m) = []"
  shows "match_pairs (snd (ensureDuelloQuestionSet md5 m d)) (m_id m)
           = set (number_from 1 (select_question_ids md5 m d))"
proof -
  have e: "match_pairs d (m_id m) = {}" using assms by (simp add: existing_set_empty)
  then have "match_pairs (insert_questions (m_id m) 1 (select_question_ids md5 m d) d) (m_id m)
      = match_pairs d (m_id m) \<union> set (number_from 1 (select_question_ids md5 m d))"
    by (intro match_pairs_insert_questions) simp
  then show ?thesis using assms e by (simp add: ensureDuelloQuestionSet_def Let_def)
qed

lemma ensure_frame:
  "(snd (ensureDuelloQuestionSet md5 m d))\<lparr>duello_match_questions := duello_match_questions d\<rparr> = d"
  by (simp add: ensureDuelloQuestionSet_def Let_def insert_questions_frame)

lemma ensure_other:
  assumes "m_id m \<noteq> other"
  shows "filter (\<lambda>x. mq_match_id x = other) (duello_match_questions (snd (ensureDuelloQuestionSet md5 m d)))
       = filter (\<lambda>x. mq_match_id x = other) (duello_match_questions d)"
  using assms by (simp add: ensureDuelloQuestionSet_def Let_def insert_questions_other)

lemma ensure_fst:
  "fst (ensureDuelloQuestionSet md5 m d)
     = existing_set (snd (ensureDuelloQuestionSet md5 m d)) (m_id m)"
  by (simp add: ensureDuelloQuestionSet_def Let_def)

lemma approved_pool_frame:
  "approved_pool (d\<lparr>duello_match_questions := x\<rparr>) = approved_pool d"
  by (simp add: approved_pool_def)

lemma ensure_idempotent:
  "ensureDuelloQuestionSet md5 m (snd (ensureDuelloQuestionSet md5 m d))
     = ensureDuelloQuestionSet md5 m d"
proof (cases "existing_set d (m_id m) = []")
  case False
  then show ?thesis by (simp add: ensure_existing)
next
  case True
  let ?d1 = "snd (ensureDuelloQuestionSet md5 m d)"
  show ?thesis
  proof (cases "existing_set ?d1 (m_id m) = []")
    case False
    then have "ensureDuelloQuestionSet md5 m ?d1 = (existing_set ?d1 (m_id m), ?d1)"
      by (rule ensure_existing)
    then show ?thesis using ensure_fst [of md5 m d] by (simp add: prod_eq_iff)
  next
    case e1: True
    have "set (number_from 1 (select_question_ids md5 m d)) = {}"
      using ensure_fresh [OF True, of md5] e1 by (simp add: existing_set_empty)
    then have "select_question_ids md5 m d = []"
      by (cases "select_question_ids md5 m d") auto
    then have "?d1 = d" using True by (simp add: ensureDuelloQuestionSet_def Let_def)
    then show ?thesis by simp
  qed
qed

lemma position_rows_Cons:
  "position_rows matchId p (q # qs)
     = \<lparr>mq_match_id = matchId, pos = p, mq_question_id = q\<rparr> # position_rows matchId (p + 1) qs"
  by (simp add: position_rows_def)

lemma position_rows_pos: "r \<in> set (position_rows matchId p qs) \<Longrightarrow> p \<le> pos r \<and> mq_match_id r = matchId"
  by (auto simp: position_rows_def dest: number_from_fst)

lemma insert_questions_rows:
  "duello_match_questions (insert_questions matchId p qs d)
     = duello_match_questions d @
       filter (\<lambda>r. \<not> position_taken d matchId (pos r)) (position_rows matchId p qs)"
proof (induction qs arbitrary: p d)
  case Nil
  then show ?case by (simp add: position_rows_def)
next
  case (Cons q qs)
  let ?r = "\<lparr>mq_match_id = matchId, pos = p, mq_question_id = q\<rparr>"
  let ?d1 = "insert_mq ?r d"
  have ih: "duello_match_questions (insert_questions matchId (p + 1) qs ?d1)
     = duello_match_questions ?d1 @
       filter (\<lambda>r. \<not> position_taken ?d1 matchId (pos r)) (position_rows matchId (p + 1) qs)"
    by (rule Cons.IH)
  have same: "filter (\<lambda>r. \<not> position_taken ?d1 matchId (pos r)) (position_rows matchId (p + 1) qs)
            = filter (\<lambda>r. \<not> position_taken d matchId (pos r)) (position_rows matchId (p + 1) qs)"
  proof (rule filter_cong [OF refl])
    fix r assume "r \<in> set (position_rows matchId (p + 1) qs)"
    then have "p + 1 \<le> pos r" by (auto dest: position_rows_pos)
    then show "(\<not> position_taken ?d1 matchId (pos r)) = (\<not> position_taken d matchId (pos r))"
      by (auto simp: position_taken_def insert_mq_def)
  qed
  show ?case
  proof (cases "position_taken d matchId p")
    case True
    then have "?d1 = d" by (simp add: insert_mq_def position_taken_def)
    then show ?thesis using ih same True by (simp add: position_rows_Cons)
  next
    case False
    then have "duello_match_questions ?d1 = duello_match_questions d @ [?r]"
      by (simp add: insert_mq_def position_taken_def)
    then show ?thesis using ih same False by (simp add: position_rows_Cons)
  qed
qed

lemma position_rows_sorted: "sorted (map pos (position_rows matchId p qs))"
proof (induction qs arbitrary: p)
  case Nil
  then show ?case by (simp add: position_rows_def)
next
  case (Cons q qs)
  have "\<forall>r \<in> set (position_rows matchId (p + 1) qs). p \<le> pos r"
    by (auto dest: position_rows_pos)
  then show ?case using Cons [of "p + 1"] by (simp add: position_rows_Cons)
qed

lemma position_rows_match:
  "filter (\<lambda>r. mq_match_id r = matchId) (position_rows matchId p qs) = position_rows matchId p qs"
  by (auto simp: filter_id_conv dest: position_rows_pos)

lemma sort_key_sorted: "sorted (map f xs) \<Longrightarrow> sort_key f xs = xs"
  by (induction xs) (auto simp: insort_is_Cons)

lemma ensure_fresh_rows:
  assumes "existing_set d (m_id m) = []"
  shows "duello_match_questions (snd (ensureDuelloQuestionSet md5 m d))
           = duello_match_questions d @ position_rows (m_id m) 1 (select_question_ids md5 m d)"
    and "fst (ensureDuelloQuestionSet md5 m d) = position_rows (m_id m) 1 (select_question_ids md5 m d)"
proof -
  let ?ids = "select_question_ids md5 m d"
  have none: "filter (\<lambda>r. mq_match_id r = m_id m) (duello_match_questions d) = []"
    using assms unfolding existing_set_def by (metis length_sort length_0_conv)
  then have free: "\<not> position_taken d (m_id m) x" for x
    by (auto simp: position_taken_def filter_empty_conv)
  have rows: "duello_match_questions (insert_questions (m_id m) 1 ?ids d)
           = duello_match_questions d @ position_rows (m_id m) 1 ?ids"
    by (simp add: insert_questions_rows free)
  show "duello_match_questions (snd (ensureDuelloQuestionSet md5 m d))
           = duello_match_questions d @ position_rows (m_id m) 1 ?ids"
    using assms rows by (simp add: ensureDuelloQuestionSet_def Let_def)
  have "existing_set (insert_questions (m_id m) 1 ?ids d) (m_id m) = position_rows (m_id m) 1 ?ids"
    unfolding existing_set_def rows
    by (simp add: none position_rows_match sort_key_sorted position_rows_sorted)
  then show "fst (ensureDuelloQuestionSet md5 m d) = position_rows (m_id m) 1 ?ids"
    using assms by (simp add: ensureDuelloQuestionSet_def Let_def)
qed

lemma select_explicit:
  "select_question_ids md5 m d
     = take (nat (max 1 (if total_questions m = 0 then 12 else total_questions m)))
            (sort_key (seed_key md5 (m_id m)) (approved_pool d))"
  by (simp add: select_question_ids_def total_of_def)

lemma insert_questions_key:
  assumes "distinct (map (\<lambda>r. (mq_match_id r, pos r)) (duello_match_questions d))"
  shows "distinct (map (\<lambda>r. (mq_match_id r, pos r)) (duello_match_questions (insert_questions matchId p qs d)))"
  using assms
proof (induction qs arbitrary: p d)
  case Nil
  then show ?case by simp
next
  case (Cons q qs)
  let ?r = "\<lparr>mq_match_id = matchId, pos = p, mq_question_id = q\<rparr>"
  have "distinct (map (\<lambda>r. (mq_match_id r, pos r)) (duello_match_questions (insert_mq ?r d)))"
    using Cons.prems by (auto simp: insert_mq_def filter_empty_conv)
  then show ?case using Cons.IH by simp
qed

lemma select_length:
  "length (select_question_ids md5 m d)
     = min (nat (max 1 (if total_questions m = 0 then 12 else total_questions m)))
           (length (approved_pool d))"
  by (simp add: select_explicit)

text \<open>
  Claim C8. If rows of the match exist, \<open>ensureDuelloQuestionSet\<close> returns them (ordered
  by position) and writes nothing. Otherwise the ids are the first \<open>total_questions\<close>
  (12 when it is 0, 1 when it is negative), fewer when the approved pool is smaller, of
  the approved pool ordered by the seeded digest; the call appends to the table exactly
  one row for each of these ids, at the positions 1, 2, ... in this order, and returns
  these rows; it writes no other table. A second call returns the same rows and leaves
  the database as the first call left it. The loop inserts if absent: on any database it
  appends exactly the rows whose position is not yet taken for the match, once each, so
  it keeps the primary key \<open>(match_id, pos)\<close>, and started on a database that already
  holds some of the pairs (another call's inserts) it ends with exactly these pairs. The
  selected ids are a function of the pool's content, not of its row order, when the digest
  has no collision on the pool.
\<close>

theorem question_set_idempotent:
  "(existing_set d (m_id m) \<noteq> [] \<longrightarrow>
      ensureDuelloQuestionSet md5 m d = (existing_set d (m_id m), d)) \<and>
   select_question_ids md5 m d
     = take (nat (max 1 (if total_questions m = 0 then 12 else total_questions m)))
            (sort_key (\<lambda>q. md5 (text_of_int (m_id m) @ ''-'' @ text_of_int q))
                      (approved_pool d)) \<and>
   length (select_question_ids md5 m d)
     = min (nat (max 1 (if total_questions m = 0 then 12 else total_questions m)))
           (length (approved_pool d)) \<and>
   (existing_set d (m_id m) = [] \<longrightarrow>
      duello_match_questions (snd (ensureDuelloQuestionSet md5 m d))
        = duello_match_questions d @ position_rows (m_id m) 1 (select_question_ids md5 m d) \<and>
      fst (ensureDuelloQuestionSet md5 m d)
        = position_rows (m_id m) 1 (select_question_ids md5 m d)) \<and>
   fst (ensureDuelloQuestionSet md5 m d)
     = existing_set (snd (ensureDuelloQuestionSet md5 m d)) (m_id m) \<and>
   (snd (ensureDuelloQuestionSet md5 m d))\<lparr>duello_match_questions := duello_match_questions d\<rparr> = d \<and>
   ensureDuelloQuestionSet md5 m (snd (ensureDuelloQuestionSet md5 m d))
     = ensureDuelloQuestionSet md5 m d \<and>
   (\<forall>d0. duello_match_questions (insert_questions (m_id m) 1 (select_question_ids md5 m d) d0)
           = duello_match_questions d0 @
             filter (\<lambda>r. \<not> position_taken d0 (m_id m) (pos r))
                    (position_rows (m_id m) 1 (select_question_ids md5 m d))) \<and>
   (\<forall>d0. distinct (map (\<lambda>r. (mq_match_id r, pos r)) (duello_match_questions d0)) \<longrightarrow>
         distinct (map (\<lambda>r. (mq_match_id r, pos r))
            (duello_match_questions
               (insert_questions (m_id m) 1 (select_question_ids md5 m d) d0)))) \<and>
   (\<forall>d0. match_pairs d0 (m_id m) \<subseteq> set (number_from 1 (select_question_ids md5 m d)) \<longrightarrow>
      match_pairs (insert_questions (m_id m) 1 (select_question_ids md5 m d) d0) (m_id m)
        = set (number_from 1 (select_question_ids md5 m d))) \<and>
   (\<forall>d2. set (approved_pool d2) = set (approved_pool d) \<and>
         distinct (approved_pool d) \<and> distinct (approved_pool d2) \<and>
         inj_on (seed_key md5 (m_id m)) (set (approved_pool d)) \<longrightarrow>
      select_question_ids md5 m d2 = select_question_ids md5 m d)"
proof -
  let ?ids = "select_question_ids md5 m d"
  have race: "\<forall>d0. match_pairs d0 (m_id m) \<subseteq> set (number_from 1 ?ids) \<longrightarrow>
      match_pairs (insert_questions (m_id m) 1 ?ids d0) (m_id m) = set (number_from 1 ?ids)"
  proof (intro allI impI)
    fix d0 assume sub: "match_pairs d0 (m_id m) \<subseteq> set (number_from 1 ?ids)"
    then have "match_pairs (insert_questions (m_id m) 1 ?ids d0) (m_id m)
        = match_pairs d0 (m_id m) \<union> set (number_from 1 ?ids)"
      by (intro match_pairs_insert_questions) blast
    then show "match_pairs (insert_questions (m_id m) 1 ?ids d0) (m_id m) = set (number_from 1 ?ids)"
      using sub by blast
  qed
  have pool: "\<forall>d2. set (approved_pool d2) = set (approved_pool d) \<and>
         distinct (approved_pool d) \<and> distinct (approved_pool d2) \<and>
         inj_on (seed_key md5 (m_id m)) (set (approved_pool d)) \<longrightarrow>
      select_question_ids md5 m d2 = select_question_ids md5 m d"
  proof (intro allI impI)
    fix d2
    assume a: "set (approved_pool d2) = set (approved_pool d) \<and>
         distinct (approved_pool d) \<and> distinct (approved_pool d2) \<and>
         inj_on (seed_key md5 (m_id m)) (set (approved_pool d))"
    show "select_question_ids md5 m d2 = select_question_ids md5 m d"
      by (rule select_pool_order) (use a in simp_all)
  qed
  have fresh: "existing_set d (m_id m) = [] \<longrightarrow>
      duello_match_questions (snd (ensureDuelloQuestionSet md5 m d))
        = duello_match_questions d @ position_rows (m_id m) 1 ?ids \<and>
      fst (ensureDuelloQuestionSet md5 m d) = position_rows (m_id m) 1 ?ids"
    using ensure_fresh_rows by blast
  have loop: "\<forall>d0. duello_match_questions (insert_questions (m_id m) 1 ?ids d0)
           = duello_match_questions d0 @
             filter (\<lambda>r. \<not> position_taken d0 (m_id m) (pos r)) (position_rows (m_id m) 1 ?ids)"
    using insert_questions_rows by blast
  have key: "\<forall>d0. distinct (map (\<lambda>r. (mq_match_id r, pos r)) (duello_match_questions d0)) \<longrightarrow>
         distinct (map (\<lambda>r. (mq_match_id r, pos r))
            (duello_match_questions (insert_questions (m_id m) 1 ?ids d0)))"
    using insert_questions_key by blast
  have ex: "existing_set d (m_id m) \<noteq> [] \<longrightarrow>
      ensureDuelloQuestionSet md5 m d = (existing_set d (m_id m), d)"
    using ensure_existing by blast
  have k: "seed_key md5 (m_id m) = (\<lambda>q. md5 (text_of_int (m_id m) @ ''-'' @ text_of_int q))"
    by (rule ext) (simp add: seed_key_def)
  have sel: "select_question_ids md5 m d
     = take (nat (max 1 (if total_questions m = 0 then 12 else total_questions m)))
            (sort_key (\<lambda>q. md5 (text_of_int (m_id m) @ ''-'' @ text_of_int q))
                      (approved_pool d))"
    using select_explicit [of md5 m d] unfolding k .
  show ?thesis
    by (intro conjI ex sel select_length fresh ensure_fst ensure_frame
        ensure_idempotent loop key race pool)
qed

lemma demo_fresh_rows:
  "fst (ensureDuelloQuestionSet demo_md5 demo_fresh_match demo_fresh)
     = [\<lparr>mq_match_id = 1, pos = 1, mq_question_id = 11\<rparr>,
        \<lparr>mq_match_id = 1, pos = 2, mq_question_id = 10\<rparr>]"
  by code_simp

lemma demo_fresh_empty: "existing_set demo_fresh (m_id demo_fresh_match) = []"
  by code_simp

lemma demo_fresh_ids:
  "select_question_ids demo_md5 demo_fresh_match demo_fresh = [11, 10] \<and>
   select_question_ids demo_md5 (demo_fresh_match\<lparr>total_questions := 1\<rparr>) demo_fresh = [11] \<and>
   length (approved_pool demo_fresh) = 2 \<and> total_questions demo_fresh_match = 12 \<and>
   position_rows 1 1 [11, 10]
     = [\<lparr>mq_match_id = 1, pos = 1, mq_question_id = 11\<rparr>,
        \<lparr>mq_match_id = 1, pos = 2, mq_question_id = 10\<rparr>] \<and>
   duello_match_questions demo_fresh = []"
  by code_simp

lemma demo_half_rows:
  "duello_match_questions demo_half = [\<lparr>mq_match_id = 1, pos = 2, mq_question_id = 10\<rparr>] \<and>
   duello_match_questions (insert_questions 1 1 [11, 10] demo_half)
     = [\<lparr>mq_match_id = 1, pos = 2, mq_question_id = 10\<rparr>,
        \<lparr>mq_match_id = 1, pos = 1, mq_question_id = 11\<rparr>]"
  by code_simp

theorem question_set_idempotent_witness:
  "existing_set demo_fresh (m_id demo_fresh_match) = [] \<and>
   select_question_ids demo_md5 demo_fresh_match demo_fresh = [11, 10] \<and>
   length (select_question_ids demo_md5 demo_fresh_match demo_fresh) = min 12 2 \<and>
   select_question_ids demo_md5 (demo_fresh_match\<lparr>total_questions := 1\<rparr>) demo_fresh = [11] \<and>
   fst (ensureDuelloQuestionSet demo_md5 demo_fresh_match demo_fresh)
     = [\<lparr>mq_match_id = 1, pos = 1, mq_question_id = 11\<rparr>,
        \<lparr>mq_match_id = 1, pos = 2, mq_question_id = 10\<rparr>] \<and>
   duello_match_questions (snd (ensureDuelloQuestionSet demo_md5 demo_fresh_match demo_fresh))
     = [\<lparr>mq_match_id = 1, pos = 1, mq_question_id = 11\<rparr>,
        \<lparr>mq_match_id = 1, pos = 2, mq_question_id = 10\<rparr>] \<and>
   ensureDuelloQuestionSet demo_md5 demo_fresh_match
       (snd (ensureDuelloQuestionSet demo_md5 demo_fresh_match demo_fresh))
     = ensureDuelloQuestionSet demo_md5 demo_fresh_match demo_fresh \<and>
   duello_match_questions (insert_questions 1 1 [11, 10] demo_half)
     = [\<lparr>mq_match_id = 1, pos = 2, mq_question_id = 10\<rparr>,
        \<lparr>mq_match_id = 1, pos = 1, mq_question_id = 11\<rparr>]"
proof -
  have mid: "m_id demo_fresh_match = 1"
    by (simp add: demo_fresh_match_def new_match_def)
  note t = question_set_idempotent [of demo_fresh demo_fresh_match demo_md5]
  have len: "length (select_question_ids demo_md5 demo_fresh_match demo_fresh) = min 12 2"
    using t demo_fresh_ids by simp
  have rows: "duello_match_questions (snd (ensureDuelloQuestionSet demo_md5 demo_fresh_match demo_fresh))
     = duello_match_questions demo_fresh @ position_rows 1 1 [11, 10]"
    using t demo_fresh_empty demo_fresh_ids mid by simp
  have idem: "ensureDuelloQuestionSet demo_md5 demo_fresh_match
       (snd (ensureDuelloQuestionSet demo_md5 demo_fresh_match demo_fresh))
     = ensureDuelloQuestionSet demo_md5 demo_fresh_match demo_fresh"
    using t by blast
  show ?thesis
    using len rows idem demo_fresh_empty demo_fresh_rows demo_fresh_ids demo_half_rows
    by simp
qed

section \<open>Creating an invite\<close>

lemma createInvite_unfold:
  "createInvite now fromId to_id to_code mode_raw d =
     (let toUser = findUserByIdOrCode d to_id to_code
      in if fromId = 0 then (Inl MissingIds, d, [])
         else case toUser of
           None \<Rightarrow> (Inl TargetUnknown, d, [])
         | Some tu \<Rightarrow>
            (case parse_mode mode_raw of
               None \<Rightarrow> (Inl BadMode, d, [])
             | Some mode \<Rightarrow>
                (let toId = u_id tu
                 in if fromId = toId then (Inl SelfChallenge, d, [])
                    else
                      (let d1 = expireOldInvites now d;
                           d2 = lazy_finish now d1
                       in if hasActiveMatch d2 fromId then (Inl AlreadyActive, d2, [])
                          else if hasActiveMatch d2 toId then (Inl AlreadyActive, d2, [])
                          else if hasFreshPendingInvite now d2 fromId toId
                            then (Inl DuplicatePending, d2, [])
                          else
                            (case insert_invite now fromId toId mode d2 of
                               (None, d3) \<Rightarrow> (Inl ServerError, d3, [])
                             | (Some ivt, d3) \<Rightarrow> (Inr ivt, d3, [(toId, InviteNew (i_id ivt))]))))))"
  by (auto simp: createInvite_def createInvite_at_def Let_def split: option.splits prod.splits)

lemma expire_matches: "duello_matches (expireOldInvites now d) = duello_matches d"
  by (simp add: expireOldInvites_def)

lemma lazy_finish_invites: "duello_invites (lazy_finish now d) = duello_invites d"
  by (simp add: lazy_finish_def)

lemma insert_invite_matches:
  "insert_invite now f t mode d = (r, d') \<Longrightarrow> duello_matches d' = duello_matches d"
  by (auto simp: insert_invite_def Let_def split: if_splits)

lemma hasActive_lazy_finish:
  "hasActiveMatch (lazy_finish now d) u \<longleftrightarrow>
     (\<exists>m \<in> set (duello_matches d).
        m_state m = Active \<and> references m u \<and> current_index m < total_questions m)"
  by (auto simp: hasActiveMatch_def lazy_finish_def filter_empty_conv references_def)

lemma hasActive_expire:
  "hasActiveMatch (lazy_finish now (expireOldInvites now d)) u = hasActiveMatch (lazy_finish now d) u"
  by (simp add: hasActiveMatch_def lazy_finish_def expire_matches)

lemma createInvite_matches:
  assumes "fromId \<noteq> 0" "findUserByIdOrCode d to_id to_code = Some tu"
      and "parse_mode mode_raw = Some mode" "fromId \<noteq> u_id tu"
  shows "duello_matches (fst (snd (createInvite now fromId to_id to_code mode_raw d)))
           = duello_matches (lazy_finish now d)"
proof -
  have a: "duello_matches (lazy_finish now (expireOldInvites now d)) = duello_matches (lazy_finish now d)"
    by (simp add: lazy_finish_def expire_matches)
  show ?thesis
    using assms a
    by (auto simp: createInvite_unfold Let_def split: prod.splits option.splits
             dest: insert_invite_matches)
qed

lemma createInvite_already_active:
  assumes "fromId \<noteq> 0" "findUserByIdOrCode d to_id to_code = Some tu"
      and "parse_mode mode_raw = Some mode" "fromId \<noteq> u_id tu"
  shows "fst (createInvite now fromId to_id to_code mode_raw d) = Inl AlreadyActive \<longleftrightarrow>
           hasActiveMatch (lazy_finish now d) fromId \<or> hasActiveMatch (lazy_finish now d) (u_id tu)"
  using assms
  by (auto simp: createInvite_unfold Let_def hasActive_expire split: prod.splits option.splits)

lemma createInvite_invalid:
  assumes "fromId = 0 \<or> findUserByIdOrCode d to_id to_code = None \<or> parse_mode mode_raw = None
           \<or> (\<exists>tu. findUserByIdOrCode d to_id to_code = Some tu \<and> fromId = u_id tu)"
  shows "fst (snd (createInvite now fromId to_id to_code mode_raw d)) = d \<and>
         snd (snd (createInvite now fromId to_id to_code mode_raw d)) = []"
  using assms
  by (auto simp: createInvite_unfold Let_def split: option.splits)

lemma hasFresh_expire_lazy:
  "hasFreshPendingInvite now (lazy_finish now (expireOldInvites now d)) a b
     = hasFreshPendingInvite now d a b"
proof -
  have "\<And>i P. (i_status (if i_status i = Pending \<and> expire_at i \<le> now then i\<lparr>i_status := Expired\<rparr> else i) = Pending
            \<and> now < expire_at (if i_status i = Pending \<and> expire_at i \<le> now then i\<lparr>i_status := Expired\<rparr> else i) \<and> P (if i_status i = Pending \<and> expire_at i \<le> now then i\<lparr>i_status := Expired\<rparr> else i))
         = (i_status i = Pending \<and> now < expire_at i \<and> P i)"
    by auto
  then show ?thesis
    by (auto simp: hasFreshPendingInvite_def lazy_finish_def expireOldInvites_def filter_empty_conv)
qed

lemma hasFresh_iff:
  "hasFreshPendingInvite now d a b \<longleftrightarrow>
     (\<exists>i \<in> set (duello_invites d). i_status i = Pending \<and> now < expire_at i \<and>
        ((from_user_id i = a \<and> to_user_id i = b) \<or> (from_user_id i = b \<and> to_user_id i = a)))"
  by (auto simp: hasFreshPendingInvite_def filter_empty_conv)

lemma no_pending_pair_after_checks:
  assumes "\<not> hasFreshPendingInvite now d a b"
  shows "filter (\<lambda>i. i_status i = Pending \<and> from_user_id i = a \<and> to_user_id i = b)
                (duello_invites (lazy_finish now (expireOldInvites now d))) = []"
  using assms
  by (auto simp: hasFresh_iff lazy_finish_def expireOldInvites_def filter_empty_conv)

lemma findUser_in_users:
  assumes "findUserByIdOrCode d to_id to_code = Some tu"
  shows "find (\<lambda>u. u_id u = u_id tu) (users d) \<noteq> None"
proof -
  have "tu \<in> set (users d)"
    using assms by (auto simp: findUserByIdOrCode_def find_Some_iff split: if_splits)
  then show ?thesis by (auto simp: find_None_iff)
qed

lemma insert_invite_ok:
  assumes "find (\<lambda>u. u_id u = fromId) (users d) \<noteq> None"
      and "find (\<lambda>u. u_id u = toId) (users d) \<noteq> None"
      and "filter (\<lambda>i. i_status i = Pending \<and> from_user_id i = fromId \<and> to_user_id i = toId)
                   (duello_invites d) = []"
  shows "insert_invite now fromId toId mode d =
           (Some (new_invite now (invites_seq d + 1) fromId toId mode),
            d\<lparr>invites_seq := invites_seq d + 1,
              duello_invites := duello_invites d @ [new_invite now (invites_seq d + 1) fromId toId mode]\<rparr>)"
  using assms by (simp add: insert_invite_def Let_def)

lemma insert_invite_fk:
  assumes "find (\<lambda>u. u_id u = fromId) (users d) = None"
  shows "insert_invite now fromId toId mode d = (None, d\<lparr>invites_seq := invites_seq d + 1\<rparr>)"
  using assms by (simp add: insert_invite_def Let_def)

lemma users_expire_lazy: "users (lazy_finish now (expireOldInvites now d)) = users d"
  by (simp add: lazy_finish_def expireOldInvites_def)

lemma seq_expire_lazy: "invites_seq (lazy_finish now (expireOldInvites now d)) = invites_seq d"
  by (simp add: lazy_finish_def expireOldInvites_def)

lemma invites_expire_lazy:
  "duello_invites (lazy_finish now (expireOldInvites now d)) = duello_invites (expireOldInvites now d)"
  by (simp add: lazy_finish_def)

lemma createInvite_table:
  assumes "fromId \<noteq> 0" and "parse_mode mode_raw = Some mode"
  shows "createInvite now fromId to_id to_code mode_raw d =
     (case findUserByIdOrCode d to_id to_code of
        None \<Rightarrow> (Inl TargetUnknown, d, [])
      | Some tu \<Rightarrow>
         if fromId = u_id tu then (Inl SelfChallenge, d, [])
         else if hasActiveMatch (lazy_finish now d) fromId \<or> hasActiveMatch (lazy_finish now d) (u_id tu)
           then (Inl AlreadyActive, prepared now d, [])
         else if hasFreshPendingInvite now d fromId (u_id tu)
           then (Inl DuplicatePending, prepared now d, [])
         else if find (\<lambda>u. u_id u = fromId) (users d) = None
           then (Inl ServerError, (prepared now d)\<lparr>invites_seq := invites_seq d + 1\<rparr>, [])
         else (Inr (new_invite now (invites_seq d + 1) fromId (u_id tu) mode),
               (prepared now d)\<lparr>invites_seq := invites_seq d + 1,
                  duello_invites := duello_invites (expireOldInvites now d)
                     @ [new_invite now (invites_seq d + 1) fromId (u_id tu) mode]\<rparr>,
               [(u_id tu, InviteNew (invites_seq d + 1))]))"
proof (cases "findUserByIdOrCode d to_id to_code")
  case None
  then show ?thesis using assms by (simp add: createInvite_unfold)
next
  case (Some tu)
  let ?d2 = "lazy_finish now (expireOldInvites now d)"
  show ?thesis
  proof (cases "fromId = u_id tu \<or> hasActiveMatch (lazy_finish now d) fromId \<or>
                hasActiveMatch (lazy_finish now d) (u_id tu) \<or> hasFreshPendingInvite now d fromId (u_id tu)")
    case True
    then show ?thesis using assms Some
      by (auto simp: createInvite_unfold Let_def hasActive_expire hasFresh_expire_lazy prepared_def)
  next
    case False
    then have nofresh: "\<not> hasFreshPendingInvite now d fromId (u_id tu)" by simp
    have touser: "find (\<lambda>u. u_id u = u_id tu) (users ?d2) \<noteq> None"
      using findUser_in_users [OF Some] by (simp add: users_expire_lazy)
    show ?thesis
    proof (cases "find (\<lambda>u. u_id u = fromId) (users d) = None")
      case True
      then have "insert_invite now fromId (u_id tu) mode ?d2 = (None, ?d2\<lparr>invites_seq := invites_seq ?d2 + 1\<rparr>)"
        by (intro insert_invite_fk) (simp add: users_expire_lazy)
      then show ?thesis using assms Some False True
        by (simp add: createInvite_unfold Let_def hasActive_expire hasFresh_expire_lazy prepared_def seq_expire_lazy)
    next
      case fu: False
      have "insert_invite now fromId (u_id tu) mode ?d2 =
           (Some (new_invite now (invites_seq ?d2 + 1) fromId (u_id tu) mode),
            ?d2\<lparr>invites_seq := invites_seq ?d2 + 1,
              duello_invites := duello_invites ?d2 @ [new_invite now (invites_seq ?d2 + 1) fromId (u_id tu) mode]\<rparr>)"
        using fu touser no_pending_pair_after_checks [OF nofresh]
        by (intro insert_invite_ok) (simp_all add: users_expire_lazy)
      then show ?thesis using assms Some False fu
        by (simp add: createInvite_unfold Let_def hasActive_expire hasFresh_expire_lazy prepared_def
            seq_expire_lazy invites_expire_lazy new_invite_def)
    qed
  qed
qed

text \<open>
  Claim C10. A call that reaches the refreshing statements (it has a sender id, its target
  resolves, its mode is valid and the sender is not the target: the four checks the
  handler makes before \<open>expireOldInvites\<close>) finishes every row that is active with
  \<open>current_index >= total_questions\<close>, whoever its users are, setting \<open>finished_at\<close>,
  and changes no other match row, whatever the call then returns. The active-match checks
  run on the refreshed table: the call is rejected with \<open>AlreadyActive\<close> exactly when
  the sender or the target has an active match that has not used up its questions.
\<close>

theorem lazy_completion_on_invite:
  assumes "fromId \<noteq> 0" "findUserByIdOrCode d to_id to_code = Some tu"
      and "parse_mode mode_raw = Some mode" "fromId \<noteq> u_id tu"
  shows "duello_matches (fst (snd (createInvite now fromId to_id to_code mode_raw d)))
           = map (\<lambda>m. if m_state m = Active \<and> total_questions m \<le> current_index m
                       then m\<lparr>m_state := Finished, finished_at := Some now\<rparr> else m)
                 (duello_matches d) \<and>
         (fst (createInvite now fromId to_id to_code mode_raw d) = Inl AlreadyActive \<longleftrightarrow>
            (\<exists>m \<in> set (duello_matches d).
                m_state m = Active \<and> (references m fromId \<or> references m (u_id tu)) \<and>
                current_index m < total_questions m))"
proof -
  have "duello_matches (lazy_finish now d)
      = map (\<lambda>m. if m_state m = Active \<and> total_questions m \<le> current_index m
                       then m\<lparr>m_state := Finished, finished_at := Some now\<rparr> else m)
                 (duello_matches d)"
    by (simp add: lazy_finish_def)
  then show ?thesis
    using createInvite_matches [OF assms] createInvite_already_active [OF assms]
    by (auto simp: hasActive_lazy_finish)
qed

lemma demo_stale_valid:
  "findUserByIdOrCode demo_stale 2 [] = Some \<lparr>u_id = 2, user_code = Some ''BBB222''\<rparr> \<and>
   parse_mode ''speed'' = Some Speed"
  by code_simp

lemma demo_stale_states:
  "map m_state (duello_matches (fst (snd (createInvite 2000 1 2 [] ''speed'' demo_stale))))
     = [Finished, Finished, Active]"
  by code_simp

lemma demo_stale_active: "hasActiveMatch demo_stale 1 \<and> hasActiveMatch demo_stale 5"
  by code_simp

theorem lazy_completion_on_invite_witness:
  "hasActiveMatch demo_stale 1 \<and> hasActiveMatch demo_stale 5 \<and>
   map m_state (duello_matches (fst (snd (createInvite 2000 1 2 [] ''speed'' demo_stale))))
     = [Finished, Finished, Active] \<and>
   fst (createInvite 2000 1 2 [] ''speed'' demo_stale) \<noteq> Inl AlreadyActive"
proof -
  have v: "findUserByIdOrCode demo_stale 2 [] = Some \<lparr>u_id = 2, user_code = Some ''BBB222''\<rparr>"
    and p: "parse_mode ''speed'' = Some Speed"
    using demo_stale_valid by simp_all
  have none: "\<not> (\<exists>m \<in> set (duello_matches demo_stale).
                m_state m = Active \<and> (references m 1 \<or> references m 2) \<and>
                current_index m < total_questions m)"
    by (simp add: demo_stale_def demo_db_def new_match_def references_def)
  show ?thesis
    using lazy_completion_on_invite [OF _ v p, of 1 2000] none demo_stale_states demo_stale_active
    by simp
qed

section \<open>Answers in speed mode\<close>

lemma duelloGetMatch_id: "duelloGetMatch d matchId = Some m \<Longrightarrow> m_id m = matchId"
  by (auto simp: duelloGetMatch_def find_Some_iff)

lemma touch_answers [simp]: "duello_answers (touch_liveness now i u d) = duello_answers d"
  by (simp add: touch_liveness_def)

lemma touch_mq [simp]: "duello_match_questions (touch_liveness now i u d) = duello_match_questions d"
  by (simp add: touch_liveness_def)

lemma touch_questions [simp]: "questions (touch_liveness now i u d) = questions d"
  by (simp add: touch_liveness_def)

lemma touch_qid [simp]:
  "duelloGetQuestionIdByPos (touch_liveness now i u d) matchId p = duelloGetQuestionIdByPos d matchId p"
  by (simp add: duelloGetQuestionIdByPos_def)

lemma touch_answers_of [simp]:
  "answers_of (touch_liveness now i u d) matchId qid x = answers_of d matchId qid x"
  by (simp add: answers_of_def)

lemma touch_answers_for [simp]:
  "answers_for (touch_liveness now i u d) matchId qid = answers_for d matchId qid"
  by (simp add: answers_for_def)

lemma touch_is_correct [simp]:
  "is_correct_of (touch_liveness now i u d) qid norm = is_correct_of d qid norm"
  by (simp add: is_correct_of_def)

lemma answers_of_sub:
  "answers_for d matchId qid = [] \<Longrightarrow> answers_of d matchId qid u = []"
  by (auto simp: answers_for_def answers_of_def filter_empty_conv)

text \<open>
  The call when no statement of another request runs between its statements. In an active
  speed-mode match, for a participant, a question at the
  current position and an answer that is not "unknown": if the caller already has a row
  for the question (its own answer, or the sentinel written for it when the opponent
  answered first) the call fails with \<open>AlreadyAnswered\<close>; if the caller has none but a
  row of the question exists, the call fails with \<open>QuestionLocked\<close>; in both cases no
  answer row is inserted. If no row of the question exists, the call succeeds with
  \<open>locked = true\<close> and appends exactly two rows: the caller's answer and a
  \<open>bilmem\<close> sentinel with \<open>is_correct = 0\<close> for the opponent, so that each of the
  two has exactly one row for the question.
\<close>

lemma speed_one_at_a_time:
  assumes m: "duelloGetMatch d matchId = Some m" "m_state m = Active" "m_mode m = Speed"
      and ids: "matchId \<noteq> 0" "userId \<noteq> 0"
      and part: "inThisMatch m userId" "user_a_id m \<noteq> user_b_id m"
      and q: "duelloGetQuestionIdByPos d matchId (current_index m + 1) = Some qid"
      and n: "normalizeDuelloAnswer lc Speed raw = Some norm"
  shows "(answers_of d matchId qid userId \<noteq> [] \<longrightarrow>
            fst (submitAnswer lc perq now matchId userId raw tls mls d) = Inl AlreadyAnswered \<and>
            duello_answers (snd (submitAnswer lc perq now matchId userId raw tls mls d)) = duello_answers d) \<and>
         (answers_of d matchId qid userId = [] \<and> answers_for d matchId qid \<noteq> [] \<longrightarrow>
            fst (submitAnswer lc perq now matchId userId raw tls mls d) = Inl QuestionLocked \<and>
            duello_answers (snd (submitAnswer lc perq now matchId userId raw tls mls d)) = duello_answers d) \<and>
         (answers_for d matchId qid = [] \<longrightarrow>
            fst (submitAnswer lc perq now matchId userId raw tls mls d) = Inr True \<and>
            duello_answers (snd (submitAnswer lc perq now matchId userId raw tls mls d))
              = duello_answers d @
                [user_answer now matchId qid userId norm (is_correct_of d qid norm)
                   (max_sec_of perq mls) (left_sec_of (max_sec_of perq mls) tls),
                 sentinel_answer now matchId qid (opponentId m userId) (max_sec_of perq mls)] \<and>
            length (answers_of (snd (submitAnswer lc perq now matchId userId raw tls mls d))
                      matchId qid userId) = 1 \<and>
            length (answers_of (snd (submitAnswer lc perq now matchId userId raw tls mls d))
                      matchId qid (opponentId m userId)) = 1)"
proof -
  have mid: "m_id m = matchId" using m(1) by (rule duelloGetMatch_id)
  have opp: "opponentId m userId \<noteq> userId"
    using part by (auto simp: opponentId_def inThisMatch_def)
  have c1: "answers_of d matchId qid userId \<noteq> [] \<longrightarrow>
            fst (submitAnswer lc perq now matchId userId raw tls mls d) = Inl AlreadyAnswered \<and>
            duello_answers (snd (submitAnswer lc perq now matchId userId raw tls mls d)) = duello_answers d"
    using m ids part(1) q n mid by (simp add: submitAnswer_atomic Let_def)
  have c2: "answers_of d matchId qid userId = [] \<and> answers_for d matchId qid \<noteq> [] \<longrightarrow>
            fst (submitAnswer lc perq now matchId userId raw tls mls d) = Inl QuestionLocked \<and>
            duello_answers (snd (submitAnswer lc perq now matchId userId raw tls mls d)) = duello_answers d"
    using m ids part(1) q n mid by (simp add: submitAnswer_atomic Let_def)
  have c3: "answers_for d matchId qid = [] \<longrightarrow>
            fst (submitAnswer lc perq now matchId userId raw tls mls d) = Inr True \<and>
            duello_answers (snd (submitAnswer lc perq now matchId userId raw tls mls d))
              = duello_answers d @
                [user_answer now matchId qid userId norm (is_correct_of d qid norm)
                   (max_sec_of perq mls) (left_sec_of (max_sec_of perq mls) tls),
                 sentinel_answer now matchId qid (opponentId m userId) (max_sec_of perq mls)] \<and>
            length (answers_of (snd (submitAnswer lc perq now matchId userId raw tls mls d))
                      matchId qid userId) = 1 \<and>
            length (answers_of (snd (submitAnswer lc perq now matchId userId raw tls mls d))
                      matchId qid (opponentId m userId)) = 1"
  proof
    assume e: "answers_for d matchId qid = []"
    have e1: "answers_of d matchId qid userId = []" "answers_of d matchId qid (opponentId m userId) = []"
      using e by (simp_all add: answers_of_sub)
    have e2: "filter (\<lambda>r. a_match_id r = matchId \<and> a_question_id r = qid \<and> a_user_id r = userId) (duello_answers d) = []"
      "filter (\<lambda>r. a_match_id r = matchId \<and> a_question_id r = qid \<and> a_user_id r = opponentId m userId) (duello_answers d) = []"
      using e1 by (simp_all add: answers_of_def)
    show "fst (submitAnswer lc perq now matchId userId raw tls mls d) = Inr True \<and>
            duello_answers (snd (submitAnswer lc perq now matchId userId raw tls mls d))
              = duello_answers d @
                [user_answer now matchId qid userId norm (is_correct_of d qid norm)
                   (max_sec_of perq mls) (left_sec_of (max_sec_of perq mls) tls),
                 sentinel_answer now matchId qid (opponentId m userId) (max_sec_of perq mls)] \<and>
            length (answers_of (snd (submitAnswer lc perq now matchId userId raw tls mls d))
                      matchId qid userId) = 1 \<and>
            length (answers_of (snd (submitAnswer lc perq now matchId userId raw tls mls d))
                      matchId qid (opponentId m userId)) = 1"
      using m ids part(1) q n mid e e1 e2 opp
      by (simp add: submitAnswer_atomic Let_def insert_answer_def answers_of_def user_answer_def
          sentinel_answer_def)
  qed
  show ?thesis using c1 c2 c3 by blast
qed

lemma demo_speed_first_rows:
  "fst demo_speed_first = Inr True \<and>
   map (\<lambda>r. (a_user_id r, answer r, is_correct r)) (duello_answers (snd demo_speed_first))
     = [(1, ''evet'', 1), (2, ''bilmem'', 0)]"
  by code_simp

text \<open>
  In the speed-mode example user 1 answers first; when user 2 submits after that call has
  ended, the sentinel is already user 2's row and the call fails with
  \<open>AlreadyAnswered\<close>.
\<close>

lemma speed_later_call:
  "fst demo_speed_first = Inr True \<and>
   answers_for (snd demo_speed_first) 1 10 \<noteq> [] \<and>
   fst demo_speed_second = Inl AlreadyAnswered
   \<and> duello_answers (snd demo_speed_second) = duello_answers (snd demo_speed_first)"
  by code_simp

text \<open>
  Claim C3. The code breaks it: the conditional insert is a statement of its own, sent
  without a transaction or a lock, and the only unique index on the answers is
  \<open>(match_id, question_id, user_id)\<close>. In the speed-mode duel of the example the two participants
  submit at the same time for question 11: each insert evaluates \<open>NOT EXISTS\<close> on a snapshot without a
  row of the question, so both rows are written and both calls answer
  \<open>locked = true\<close>; each call then finds the other's row and writes no sentinel. The
  question has two real answers, where the first writer should have locked it. When the
  same two calls run one after the other, the first locks the question: the second is
  rejected and user 2 has the sentinel.
\<close>

theorem speed_both_answers_recorded:
  "duello_answers (demo_playing ''speed'') = [] \<and>
   map_option (\<lambda>(ra, rb, d). (ra, rb, map (\<lambda>r. (a_question_id r, a_user_id r, answer r, is_correct r))
                                            (duello_answers d))) demo_overlap
     = Some (Inr True, Inr True, [(11, 1, ''evet'', 0), (11, 2, hayir, 1)]) \<and>
   fst demo_turn_first = Inr True \<and> isl (fst demo_turn_second) \<and>
   map (\<lambda>r. (a_question_id r, a_user_id r, answer r, is_correct r))
       (duello_answers (snd demo_turn_second))
     = [(11, 1, ''evet'', 0), (11, 2, bilmem, 0)]"
  by code_simp

section \<open>Reveal\<close>

lemma info_autofill_frame:
  "(snd (info_autofill perq now m matchId qid d))\<lparr>duello_answers := duello_answers d\<rparr> = d"
  by (simp add: info_autofill_def Let_def insert_answer_def answers_of_def)

lemma info_autofill_matches:
  "duello_matches (snd (info_autofill perq now m matchId qid d)) = duello_matches d \<and>
   duello_match_questions (snd (info_autofill perq now m matchId qid d)) = duello_match_questions d"
  by (simp add: info_autofill_def Let_def insert_answer_def answers_of_def)

lemma reveal_autofill_matches:
  "duello_matches (snd (reveal_autofill perq now m matchId qid d)) = duello_matches d \<and>
   duello_match_questions (snd (reveal_autofill perq now m matchId qid d)) = duello_match_questions d"
  by (simp add: reveal_autofill_def info_autofill_matches)

lemma reveal_not_active:
  assumes "matchId \<noteq> 0" "userId \<noteq> 0" "duelloGetMatch d matchId = Some m" "m_state m \<noteq> Active"
  shows "reveal perq now matchId userId d = (Inr (True, current_index m), d, finished_notices m)"
  using assms by (simp add: reveal_def reveal_from_def)

lemma reveal_waiting:
  assumes "matchId \<noteq> 0" "userId \<noteq> 0" "duelloGetMatch d matchId = Some m" "m_state m = Active"
      and "inThisMatch m userId" "current_index m < total_questions m"
      and "duelloGetQuestionIdByPos d matchId (current_index m + 1) = Some qid"
      and "fst (reveal_autofill perq now m matchId qid (touch_liveness now matchId userId d))"
      and "length (answers_for (snd (reveal_autofill perq now m matchId qid
                      (touch_liveness now matchId userId d))) matchId qid) < 2"
  shows "reveal perq now matchId userId d =
           (Inr (False, current_index m),
            snd (reveal_autofill perq now m matchId qid (touch_liveness now matchId userId d)), [])"
  using assms
  by (cases "reveal_autofill perq now m matchId qid (touch_liveness now matchId userId d)")
     (auto simp: reveal_def reveal_from_def Let_def reveal_autofill_def)

lemma touch_progress:
  "map (\<lambda>m. (m_id m, m_mode m, user_a_id m, user_b_id m, m_state m, total_questions m, current_index m))
       (duello_matches (touch_liveness now matchId userId d))
   = map (\<lambda>m. (m_id m, m_mode m, user_a_id m, user_b_id m, m_state m, total_questions m, current_index m))
       (duello_matches d)"
  by (simp add: touch_liveness_def)


lemma find_map_preserving:
  assumes "\<And>x. P (f x) = P x"
  shows "find P (map f xs) = map_option f (find P xs)"
  using assms by (induction xs) auto

lemma getMatch_touch:
  assumes "duelloGetMatch d matchId = Some m"
  shows "\<exists>m'. duelloGetMatch (touch_liveness now i u d) matchId = Some m' \<and>
           m_state m' = m_state m \<and> m_mode m' = m_mode m \<and>
           user_a_id m' = user_a_id m \<and> user_b_id m' = user_b_id m \<and>
           current_index m' = current_index m \<and> total_questions m' = total_questions m"
proof -
  let ?f = "\<lambda>m. if m_id m = i
                   then m\<lparr>last_activity_at := Some now,
                          last_seen_a := (if user_a_id m = u then Some now else last_seen_a m),
                          last_seen_b := (if user_b_id m = u then Some now else last_seen_b m)\<rparr>
                   else m"
  have "find (\<lambda>m. m_id m = matchId) (map ?f (duello_matches d))
          = map_option ?f (find (\<lambda>m. m_id m = matchId) (duello_matches d))"
    by (rule find_map_preserving) simp
  then have "duelloGetMatch (touch_liveness now i u d) matchId = Some (?f m)"
    using assms by (simp add: duelloGetMatch_def touch_liveness_def)
  then show ?thesis by auto
qed

lemma getMatch_answers:
  "duelloGetMatch (d\<lparr>duello_answers := x\<rparr>) matchId = duelloGetMatch d matchId"
  by (simp add: duelloGetMatch_def)

lemma info_autofill_users:
  assumes "user_a_id m' = user_a_id m" "user_b_id m' = user_b_id m"
  shows "info_autofill perq now m' matchId qid d = info_autofill perq now m matchId qid d"
  using assms by (simp add: info_autofill_def)

lemma info_autofill_done:
  assumes "fst (info_autofill perq now m matchId qid d)"
  shows "answers_of (snd (info_autofill perq now m matchId qid d)) matchId qid (user_a_id m) \<noteq> [] \<and>
         answers_of (snd (info_autofill perq now m matchId qid d)) matchId qid (user_b_id m) \<noteq> []"
  using assms
  by (auto simp: info_autofill_def Let_def insert_answer_def answers_of_def sentinel_answer_def
      split: if_splits)

lemma info_autofill_noop:
  assumes "answers_of d matchId qid (user_a_id m) \<noteq> []" "answers_of d matchId qid (user_b_id m) \<noteq> []"
  shows "info_autofill perq now m matchId qid d = (True, d)"
  using assms by (simp add: info_autofill_def)

lemma autofill_getMatch:
  "duelloGetMatch (snd (reveal_autofill perq now m matchId qid d)) i = duelloGetMatch d i"
  by (simp add: duelloGetMatch_def reveal_autofill_matches)

lemma autofill_qid:
  "duelloGetQuestionIdByPos (snd (reveal_autofill perq now m matchId qid d)) i p
     = duelloGetQuestionIdByPos d i p"
  by (simp add: duelloGetQuestionIdByPos_def reveal_autofill_matches)

lemma reveal_waiting_again:
  assumes "matchId \<noteq> 0" "userId \<noteq> 0" "duelloGetMatch d matchId = Some m" "m_state m = Active"
      and "inThisMatch m userId" "current_index m < total_questions m"
      and "duelloGetQuestionIdByPos d matchId (current_index m + 1) = Some qid"
      and "fst (reveal_autofill perq now m matchId qid (touch_liveness now matchId userId d))"
      and "length (answers_for (snd (reveal_autofill perq now m matchId qid
                      (touch_liveness now matchId userId d))) matchId qid) < 2"
      and "userId2 \<noteq> 0" "inThisMatch m userId2"
  shows "fst (reveal perq now2 matchId userId2
                (snd (reveal_autofill perq now m matchId qid (touch_liveness now matchId userId d))))
           = Inr (False, current_index m)"
proof -
  let ?d1 = "touch_liveness now matchId userId d"
  let ?d2 = "snd (reveal_autofill perq now m matchId qid ?d1)"
  let ?d3 = "touch_liveness now2 matchId userId2 ?d2"
  from getMatch_touch [OF assms(3), of now matchId userId] obtain m' where
    m': "duelloGetMatch ?d1 matchId = Some m'" "m_state m' = m_state m" "m_mode m' = m_mode m"
        "user_a_id m' = user_a_id m" "user_b_id m' = user_b_id m"
        "current_index m' = current_index m" "total_questions m' = total_questions m"
    by blast
  have g2: "duelloGetMatch ?d2 matchId = Some m'"
    using m'(1) by (simp add: autofill_getMatch)
  have q2: "duelloGetQuestionIdByPos ?d2 matchId (current_index m' + 1) = Some qid"
    using assms(7) m'(6) by (simp add: autofill_qid)
  have fill: "reveal_autofill perq now2 m' matchId qid ?d3 = (True, ?d3)"
  proof (cases "m_mode m = Info")
    case True
    then have "fst (info_autofill perq now m matchId qid ?d1)"
      using assms(8) by (simp add: reveal_autofill_def)
    from info_autofill_done [OF this]
    have "answers_of ?d3 matchId qid (user_a_id m') \<noteq> [] \<and>
          answers_of ?d3 matchId qid (user_b_id m') \<noteq> []"
      using True m'(4,5) by (simp add: reveal_autofill_def)
    then show ?thesis
      using True m'(3) by (simp add: reveal_autofill_def info_autofill_noop)
  next
    case False
    then show ?thesis using m'(3) by (simp add: reveal_autofill_def)
  qed
  have "reveal perq now2 matchId userId2 ?d2 = (Inr (False, current_index m'), snd (reveal_autofill perq now2 m' matchId qid ?d3), [])"
  proof (rule reveal_waiting [OF assms(1,10) g2])
    show "m_state m' = Active" using m'(2) assms(4) by simp
    show "inThisMatch m' userId2" using assms(11) m'(4,5) by (simp add: inThisMatch_def)
    show "current_index m' < total_questions m'" using assms(6) m'(6,7) by simp
    show "duelloGetQuestionIdByPos ?d2 matchId (current_index m' + 1) = Some qid" by (rule q2)
    show "fst (reveal_autofill perq now2 m' matchId qid ?d3)" using fill by simp
    show "length (answers_for (snd (reveal_autofill perq now2 m' matchId qid ?d3)) matchId qid) < 2"
      using fill assms(9) by simp
  qed
  then show ?thesis using m'(6) by simp
qed

lemma autofill_progress:
  "duello_matches (snd (reveal_autofill perq now m matchId qid d)) = duello_matches d"
  by (simp add: reveal_autofill_matches)

text \<open>
  The two guards of \<open>reveal\<close>. For an
  existing match and a call with both ids: when the match is not active (finished or
  abandoned), \<open>reveal\<close> returns \<open>finished = true\<close> with the stored
  \<open>current_index\<close>, re-emits the finished notices and leaves the whole database as it
  is, so any number of such calls does the same. When the match is active, the caller is
  a participant, the current position has a question, and fewer than two answers of that
  question are recorded after the info-mode fill, \<open>reveal\<close> returns
  \<open>finished = false\<close> with the unchanged \<open>current_index\<close>, emits nothing, changes no
  match's state or \<open>current_index\<close>, and a further call by either participant at any
  later time returns \<open>finished = false\<close> with the same \<open>current_index\<close> again.
\<close>

lemma reveal_guards:
  assumes "matchId \<noteq> 0" "userId \<noteq> 0" "duelloGetMatch d matchId = Some m"
  shows "(m_state m \<noteq> Active \<longrightarrow>
            reveal perq now matchId userId d = (Inr (True, current_index m), d, finished_notices m)) \<and>
         (m_state m = Active \<and> inThisMatch m userId \<and> current_index m < total_questions m \<and>
          duelloGetQuestionIdByPos d matchId (current_index m + 1) = Some qid \<and>
          fst (reveal_autofill perq now m matchId qid (touch_liveness now matchId userId d)) \<and>
          length (answers_for (snd (reveal_autofill perq now m matchId qid
                      (touch_liveness now matchId userId d))) matchId qid) < 2 \<longrightarrow>
            fst (reveal perq now matchId userId d) = Inr (False, current_index m) \<and>
            snd (snd (reveal perq now matchId userId d)) = [] \<and>
            map (\<lambda>m. (m_id m, m_state m, current_index m))
                (duello_matches (fst (snd (reveal perq now matchId userId d))))
              = map (\<lambda>m. (m_id m, m_state m, current_index m)) (duello_matches d) \<and>
            (\<forall>now2 userId2. userId2 \<noteq> 0 \<and> inThisMatch m userId2 \<longrightarrow>
               fst (reveal perq now2 matchId userId2 (fst (snd (reveal perq now matchId userId d))))
                 = Inr (False, current_index m)))"
proof (intro conjI impI allI)
  assume "m_state m \<noteq> Active"
  then show "reveal perq now matchId userId d = (Inr (True, current_index m), d, finished_notices m)"
    using assms by (rule reveal_not_active [rotated 3])
next
  assume a: "m_state m = Active \<and> inThisMatch m userId \<and> current_index m < total_questions m \<and>
          duelloGetQuestionIdByPos d matchId (current_index m + 1) = Some qid \<and>
          fst (reveal_autofill perq now m matchId qid (touch_liveness now matchId userId d)) \<and>
          length (answers_for (snd (reveal_autofill perq now m matchId qid
                      (touch_liveness now matchId userId d))) matchId qid) < 2"
  have r: "reveal perq now matchId userId d =
           (Inr (False, current_index m),
            snd (reveal_autofill perq now m matchId qid (touch_liveness now matchId userId d)), [])"
    using assms a by (intro reveal_waiting) simp_all
  show "fst (reveal perq now matchId userId d) = Inr (False, current_index m)" using r by simp
  show "snd (snd (reveal perq now matchId userId d)) = []" using r by simp
  show "map (\<lambda>m. (m_id m, m_state m, current_index m))
                (duello_matches (fst (snd (reveal perq now matchId userId d))))
              = map (\<lambda>m. (m_id m, m_state m, current_index m)) (duello_matches d)"
    unfolding r by (simp add: autofill_progress touch_liveness_def comp_def)
  fix now2 userId2
  assume "userId2 \<noteq> 0 \<and> inThisMatch m userId2"
  then show "fst (reveal perq now2 matchId userId2 (fst (snd (reveal perq now matchId userId d))))
              = Inr (False, current_index m)"
    unfolding r using assms a by (simp add: reveal_waiting_again)
qed

lemma demo_reveal_finished:
  "duelloGetMatch demo_scored 1 = Some (hd (duello_matches demo_scored)) \<and>
   m_state (hd (duello_matches demo_scored)) = Finished \<and>
   current_index (hd (duello_matches demo_scored)) = 2"
  by code_simp

lemma demo_reveal_waiting:
  "duelloGetMatch (demo_duel Speed) 1 = Some (demo_match Speed) \<and>
   m_state (demo_match Speed) = Active \<and> inThisMatch (demo_match Speed) 1 \<and>
   inThisMatch (demo_match Speed) 2 \<and>
   current_index (demo_match Speed) = 0 \<and>
   current_index (demo_match Speed) < total_questions (demo_match Speed) \<and>
   duelloGetQuestionIdByPos (demo_duel Speed) 1 (current_index (demo_match Speed) + 1) = Some 10 \<and>
   fst (reveal_autofill 16 1010 (demo_match Speed) 1 10 (touch_liveness 1010 1 1 (demo_duel Speed))) \<and>
   length (answers_for (snd (reveal_autofill 16 1010 (demo_match Speed) 1 10
              (touch_liveness 1010 1 1 (demo_duel Speed)))) 1 10) < 2"
  by code_simp

lemma reveal_guards_witness:
  "m_state (hd (duello_matches demo_scored)) = Finished \<and>
   reveal 16 3000 1 1 demo_scored
     = (Inr (True, 2), demo_scored, finished_notices (hd (duello_matches demo_scored))) \<and>
   m_state (demo_match Speed) = Active \<and>
   fst (reveal 16 1010 1 1 (demo_duel Speed)) = Inr (False, 0) \<and>
   fst (reveal 16 1020 1 2 (fst (snd (reveal 16 1010 1 1 (demo_duel Speed))))) = Inr (False, 0)"
proof -
  note f = demo_reveal_finished
  note w = demo_reveal_waiting
  have a: "reveal 16 3000 1 1 demo_scored
     = (Inr (True, 2), demo_scored, finished_notices (hd (duello_matches demo_scored)))"
    using reveal_guards [of 1 1 demo_scored "hd (duello_matches demo_scored)" 16 3000] f
    by simp
  have get: "duelloGetMatch (demo_duel Speed) 1 = Some (demo_match Speed)"
    using w by blast
  have hyp: "m_state (demo_match Speed) = Active \<and> inThisMatch (demo_match Speed) 1 \<and>
     current_index (demo_match Speed) < total_questions (demo_match Speed) \<and>
     duelloGetQuestionIdByPos (demo_duel Speed) 1 (current_index (demo_match Speed) + 1) = Some 10 \<and>
     fst (reveal_autofill 16 1010 (demo_match Speed) 1 10 (touch_liveness 1010 1 1 (demo_duel Speed))) \<and>
     length (answers_for (snd (reveal_autofill 16 1010 (demo_match Speed) 1 10
              (touch_liveness 1010 1 1 (demo_duel Speed)))) 1 10) < 2"
    using w by blast
  have idx: "current_index (demo_match Speed) = 0" and two: "inThisMatch (demo_match Speed) 2"
    using w by blast+
  note t = reveal_guards [of 1 1 "demo_duel Speed" "demo_match Speed" 16 1010 10,
      OF _ _ get, THEN conjunct2, THEN mp, OF _ _ hyp]
  have t1: "fst (reveal 16 1010 1 1 (demo_duel Speed)) = Inr (False, current_index (demo_match Speed))"
    using t by simp
  have "\<forall>now2 userId2. userId2 \<noteq> 0 \<and> inThisMatch (demo_match Speed) userId2 \<longrightarrow>
      fst (reveal 16 now2 1 userId2 (fst (snd (reveal 16 1010 1 1 (demo_duel Speed)))))
        = Inr (False, current_index (demo_match Speed))"
    using t by simp
  then have t2: "fst (reveal 16 1020 1 2 (fst (snd (reveal 16 1010 1 1 (demo_duel Speed)))))
        = Inr (False, current_index (demo_match Speed))"
    using two by simp
  have b: "fst (reveal 16 1010 1 1 (demo_duel Speed)) = Inr (False, 0) \<and>
     fst (reveal 16 1020 1 2 (fst (snd (reveal 16 1010 1 1 (demo_duel Speed))))) = Inr (False, 0)"
    using t1 t2 idx by simp
  show ?thesis using a b f w by simp
qed

text \<open>
  Claim C4. The code breaks it in info mode: \<open>reveal\<close> is not idempotent there, and
  calls made before either side has answered are not no-ops. In the info-mode example
  with no answer recorded, the first call fills both answers of question 1 with
  \<open>bilmem\<close> and advances to index 1; the second call for the same countdown, by the
  other participant, fills both answers of question 2 and advances to index 2, so a
  question is passed that nobody was shown.
\<close>

theorem reveal_twice_advances_twice:
  "duello_answers demo_info2 = [] \<and>
   map current_index (duello_matches demo_info2) = [0] \<and>
   fst demo_info2_first = Inr (False, 1) \<and>
   fst demo_info2_second = Inr (False, 2) \<and>
   map (\<lambda>r. (a_question_id r, a_user_id r, answer r)) (duello_answers (fst (snd demo_info2_second)))
     = [(11, 1, ''bilmem''), (11, 2, ''bilmem''), (10, 1, ''bilmem''), (10, 2, ''bilmem'')] \<and>
   map current_index (duello_matches (fst (snd demo_info2_second))) = [2]"
  by code_simp

section \<open>Termination of a match\<close>

text \<open>
  Claim C2. The code breaks it: the three writes of \<open>reveal\<close> that finish a match have
  the condition \<open>WHERE id=$1\<close> only, and the handler decides on the row it read in its
  first statement. In the example the sweeper abandons the match between that read and the
  write; the write then replaces \<open>abandoned\<close> by \<open>finished\<close>. Run after the tick as a
  whole, the same call changes nothing; for calls that run one at a time a finished or
  abandoned match keeps its state (lemma \<open>settled_run\<close> in the last section).
\<close>

theorem reveal_overwrites_abandoned:
  "duelloGetMatch demo_race_db 1 = Some demo_race_read \<and>
   m_state demo_race_read = Active \<and>
   map m_state (duello_matches demo_race_swept) = [Abandoned] \<and>
   fst demo_race_end = Inr (True, 1) \<and>
   map (\<lambda>m. (m_state m, ended_reason m, current_index m)) (duello_matches (fst (snd demo_race_end)))
     = [(Finished, Some ''idle_timeout'', 1)] \<and>
   fst (snd (reveal 16 2000 1 1 demo_race_swept)) = demo_race_swept"
  by code_simp

section \<open>At most one active match\<close>

lemma calm_same: "duello_matches d' = duello_matches d \<Longrightarrow> calm d d'"
  by (simp add: calm_def calm_row_def list_all2_same)

lemma calm_trans: "calm d d1 \<Longrightarrow> calm d1 d2 \<Longrightarrow> calm d d2"
  unfolding calm_def
  by (rule list_all2_trans [where ?P1.0 = calm_row and ?P2.0 = calm_row])
     (auto simp: calm_row_def)

lemma calm_map:
  assumes "\<And>m. calm_row m (f m)"
  shows "calm d (d\<lparr>duello_matches := map f (duello_matches d)\<rparr>)"
  using assms by (simp add: calm_def list_all2_map2 list_all2_same)

lemma calm_count:
  assumes "calm d d'"
  shows "active_count d' u \<le> active_count d u"
proof -
  have "list_all2 calm_row ms ms' \<Longrightarrow>
        length (filter (\<lambda>m. m_state m = Active \<and> references m u) ms')
          \<le> length (filter (\<lambda>m. m_state m = Active \<and> references m u) ms)" for ms ms'
    by (induction rule: list_all2_induct) (auto simp: calm_row_def references_def)
  then show ?thesis using assms by (simp add: calm_def active_count_def)
qed

lemma calm_expire: "calm d (expireOldInvites now d)"
  by (rule calm_same) (simp add: expireOldInvites_def)

lemma calm_lazy: "calm d (lazy_finish now d)"
  unfolding lazy_finish_def by (rule calm_map) (simp add: calm_row_def)

lemma calm_touch: "calm d (touch_liveness now i u d)"
  unfolding touch_liveness_def by (rule calm_map) (simp add: calm_row_def)

lemma calm_touch_status: "calm d (touch_liveness_status now i u d)"
  unfolding touch_liveness_status_def by (rule calm_map) (simp add: calm_row_def)

lemma calm_finish_by_id: "calm d (finish_by_id now i d)"
  unfolding finish_by_id_def by (rule calm_map) (simp add: calm_row_def)

lemma calm_finish_last: "calm d (finish_last now i n d)"
  unfolding finish_last_def by (rule calm_map) (simp add: calm_row_def)

lemma calm_set_index: "calm d (set_index i n d)"
  unfolding set_index_def by (rule calm_map) (simp add: calm_row_def)

lemma calm_idle: "calm d (fst (duelloIdleAbortTick env now d))"
proof (cases "DUELLO_IDLE_ABORT_SEC env")
  case None
  then show ?thesis by (simp add: duelloIdleAbortTick_def calm_same)
next
  case (Some sec)
  have "calm d (d\<lparr>duello_matches := map (\<lambda>m. if idle_expired now sec m then abandon now m else m) (duello_matches d)\<rparr>)"
    by (rule calm_map) (simp add: calm_row_def abandon_def)
  then show ?thesis using Some by (simp add: duelloIdleAbortTick_def)
qed

lemma calm_ensure: "calm d (snd (ensureDuelloQuestionSet md5 m d))"
proof -
  have "duello_matches ((snd (ensureDuelloQuestionSet md5 m d))\<lparr>duello_match_questions := duello_match_questions d\<rparr>)
        = duello_matches d"
    by (simp only: ensure_frame)
  then show ?thesis by (intro calm_same) simp
qed

lemma calm_autofill: "calm d (snd (reveal_autofill perq now m matchId qid d))"
  by (rule calm_same) (simp add: reveal_autofill_matches)

lemma calm_createInvite: "calm d (fst (snd (createInvite now fromId to_id to_code mode_raw d)))"
proof -
  have l: "calm d (lazy_finish now (expireOldInvites now d))"
    by (rule calm_trans [OF calm_expire calm_lazy])
  have "\<And>r d3. insert_invite now fromId t mode (lazy_finish now (expireOldInvites now d)) = (r, d3)
         \<Longrightarrow> calm d d3" for t mode
    using l by (auto simp: calm_def dest: insert_invite_matches)
  then show ?thesis
    using l by (auto simp: createInvite_unfold Let_def calm_same split: option.splits prod.splits)
qed

lemma calm_submitAnswer: "calm d (snd (submitAnswer lc perq now matchId userId raw tls mls d))"
proof -
  have t: "calm d (touch_liveness now matchId userId d)" by (rule calm_touch)
  have a: "\<And>x. calm d ((touch_liveness now matchId userId d)\<lparr>duello_answers := x\<rparr>)"
    using t by (simp add: calm_def)
  show ?thesis
    using t a
    by (auto simp: submitAnswer_atomic Let_def calm_same insert_answer_def split: option.splits if_splits)
qed

lemma calm_reveal: "calm d (fst (snd (reveal perq now matchId userId d)))"
proof -
  let ?d1 = "touch_liveness now matchId userId d"
  have t: "calm d ?d1" by (rule calm_touch)
  have f: "calm d d2" if "reveal_autofill perq now m matchId qid ?d1 = (b, d2)" for m qid b d2
    using calm_trans [OF t calm_autofill [of ?d1 perq now m matchId qid]] that by simp
  have f1: "calm d (finish_last now matchId n d2)"
    if "reveal_autofill perq now m matchId qid ?d1 = (b, d2)" for m qid b d2 n
    using calm_trans [OF f [OF that] calm_finish_last] .
  have f2: "calm d (set_index matchId n d2)"
    if "reveal_autofill perq now m matchId qid ?d1 = (b, d2)" for m qid b d2 n
    using calm_trans [OF f [OF that] calm_set_index] .
  have f3: "calm d (finish_by_id now matchId ?d1)"
    using calm_trans [OF t calm_finish_by_id] .
  have "calm d (fst (snd (reveal_from perq now matchId userId m d)))" for m
    using t f f1 f2 f3
    by (auto simp: reveal_from_def Let_def calm_same split: option.splits prod.splits bool.splits)
  then show ?thesis by (simp add: reveal_def calm_same split: option.splits)
qed

lemma calm_status: "calm d (snd (matchStatus md5 now matchId userId d))"
proof -
  have "calm d (snd (ensureDuelloQuestionSet md5 m (touch_liveness_status now matchId userId d)))" for m
    by (rule calm_trans [OF calm_touch_status calm_ensure])
  then show ?thesis
    by (auto simp: matchStatus_def Let_def calm_same split: option.splits prod.splits)
qed

lemma calm_summary: "calm d (snd (matchSummary md5 matchId userId d))"
  using calm_ensure
  by (auto simp: matchSummary_def Let_def calm_same split: option.splits prod.splits)

lemma hasActive_count: "hasActiveMatch d u \<longleftrightarrow> 0 < active_count d u"
  by (simp add: hasActiveMatch_def active_count_def)

lemma calm_single: "calm d d' \<Longrightarrow> single_active d \<Longrightarrow> single_active d'"
  unfolding single_active_def using calm_count le_trans by blast

lemma invite_ends_expire: "invite_ends (expireOldInvites now d) = invite_ends d"
  by (simp add: invite_ends_def expireOldInvites_def comp_def)

lemma invite_ends_map:
  assumes "\<And>i. (i_id (f i), from_user_id (f i), to_user_id (f i)) = (i_id i, from_user_id i, to_user_id i)"
  shows "map (\<lambda>i. (i_id i, from_user_id i, to_user_id i)) (map f xs)
       = map (\<lambda>i. (i_id i, from_user_id i, to_user_id i)) xs"
  using assms by (induction xs) auto

lemma invite_ends_accept_rows:
  "map (\<lambda>i. (i_id i, from_user_id i, to_user_id i)) (accept_invite_rows now iid mid f t xs)
     = map (\<lambda>i. (i_id i, from_user_id i, to_user_id i)) xs"
  unfolding accept_invite_rows_def
  by (simp add: invite_ends_map)

lemma acceptTx_cases:
  assumes "acceptTx now inviteId fromId toId d = (r, d', ns)"
  shows "(r \<in> Inl ` accept_failures \<and> duello_matches d' = duello_matches d \<or>
          (\<exists>m. r = Inr (AcceptedOk m) \<and> duello_matches d' = duello_matches d @ [m] \<and>
               m_state m = Active \<and> user_a_id m = fromId \<and> user_b_id m = toId \<and>
               \<not> hasActiveMatch d fromId \<and> \<not> hasActiveMatch d toId)) \<and>
         invite_ends d' = invite_ends d"
  using assms
  by (auto simp: acceptTx_def Let_def accept_failures_def new_match_def invite_ends_def
      invite_ends_accept_rows invite_ends_map
      split: option.splits if_splits)

lemma parse_accept: "parse_action ''accept'' = Some True"
  by (simp add: parse_action_def js_toLowerCase_def lower_char_def)

lemma find_invite_ends:
  assumes "find (\<lambda>i. i_id i = inviteId) (duello_invites d) = Some i"
  shows "(inviteId, from_user_id i, to_user_id i) \<in> set (invite_ends d)"
  using assms by (force simp: find_Some_iff invite_ends_def in_set_conv_nth)

lemma respond_accept_cases:
  assumes "respondInvite now inviteId userId ''accept'' d = (r, d', ns)"
  shows "(r \<in> Inl ` accept_failures \<and> duello_matches d' = duello_matches d \<or>
          (\<exists>m. r = Inr (AcceptedOk m) \<and> duello_matches d' = duello_matches d @ [m] \<and>
               m_state m = Active \<and>
               (inviteId, user_a_id m, user_b_id m) \<in> set (invite_ends d) \<and>
               \<not> hasActiveMatch d (user_a_id m) \<and> \<not> hasActiveMatch d (user_b_id m))) \<and>
         invite_ends d' = invite_ends d"
proof (cases "inviteId = 0 \<or> userId = 0")
  case True
  then show ?thesis using assms by (auto simp: respondInvite_def accept_failures_def)
next
  case False
  let ?d1 = "expireOldInvites now d"
  have m1: "duello_matches ?d1 = duello_matches d" by (simp add: expireOldInvites_def)
  have h1: "hasActiveMatch ?d1 u = hasActiveMatch d u" for u by (simp add: hasActiveMatch_def m1)
  show ?thesis
  proof (cases "find (\<lambda>i. i_id i = inviteId) (duello_invites ?d1)")
    case None
    then show ?thesis using assms False
      by (auto simp: respondInvite_def parse_accept Let_def accept_failures_def m1 invite_ends_expire)
  next
    case (Some i)
    have ends: "(inviteId, from_user_id i, to_user_id i) \<in> set (invite_ends d)"
      using find_invite_ends [OF Some] by (simp add: invite_ends_expire)
    show ?thesis
    proof (cases "to_user_id i \<noteq> userId \<or> i_status i \<noteq> Pending \<or> expire_at i \<le> now")
      case True
      have e2: "invite_ends (?d1\<lparr>duello_invites :=
                   map (\<lambda>i. if i_id i = inviteId then i\<lparr>i_status := Expired\<rparr> else i)
                       (duello_invites ?d1)\<rparr>) = invite_ends d"
        unfolding invite_ends_expire [of now d, symmetric]
        by (simp add: invite_ends_def invite_ends_map)
      show ?thesis using True assms False Some e2
        by (auto simp: respondInvite_def parse_accept Let_def accept_failures_def m1
            invite_ends_expire split: if_splits)
    next
      case ok: False
      then have "acceptTx now inviteId (from_user_id i) (to_user_id i) ?d1 = (r, d', ns)"
        using assms False Some by (simp add: respondInvite_def parse_accept Let_def)
      from acceptTx_cases [OF this] show ?thesis
        using ends by (auto simp: m1 h1 invite_ends_expire)
    qed
  qed
qed

lemma respond_reject_matches:
  assumes "parse_action a \<noteq> Some True"
  shows "duello_matches (fst (snd (respondInvite now inviteId userId a d))) = duello_matches d"
  using assms
  by (auto simp: respondInvite_def Let_def expireOldInvites_def split: option.splits if_splits)

lemma append_active_single:
  assumes "single_active d" "duello_matches d' = duello_matches d @ [m]"
      and "\<not> hasActiveMatch d (user_a_id m)" "\<not> hasActiveMatch d (user_b_id m)"
  shows "single_active d'"
  unfolding single_active_def
proof
  fix u
  show "active_count d' u \<le> 1"
  proof (cases "references m u")
    case True
    then have "active_count d u = 0"
      using assms(3,4) by (auto simp: hasActive_count references_def)
    then show ?thesis using assms(2) by (simp add: active_count_def)
  next
    case False
    then have "active_count d' u = active_count d u"
      using assms(2) by (simp add: active_count_def)
    then show ?thesis using assms(1) by (simp add: single_active_def)
  qed
qed

lemma single_respond: 
  assumes "single_active d"
  shows "single_active (fst (snd (respondInvite now inviteId userId a d)))"
proof (cases "parse_action a = Some True")
  case False
  then show ?thesis using assms respond_reject_matches [OF False]
    by (auto intro: calm_single [OF calm_same])
next
  case True
  obtain r d' ns where e: "respondInvite now inviteId userId ''accept'' d = (r, d', ns)"
    by (cases "respondInvite now inviteId userId ''accept'' d") auto
  have same: "respondInvite now inviteId userId a d = respondInvite now inviteId userId ''accept'' d"
    using True by (simp add: respondInvite_def parse_accept)
  from respond_accept_cases [OF e] show ?thesis
    unfolding same e using assms
    by (auto intro: calm_single [OF calm_same] append_active_single)
qed

lemma single_exec:
  assumes "single_active d"
  shows "single_active (exec cfg now r d)"
proof (cases r)
  case (RespondInvite i u a)
  then show ?thesis using assms by (simp add: single_respond)
next
  case (External us ss qs)
  then show ?thesis using assms by (auto intro: calm_single [OF calm_same])
qed (use assms in \<open>auto intro: calm_single calm_createInvite calm_expire calm_status calm_submitAnswer
      calm_reveal calm_summary calm_idle\<close>)

lemma reachable_single: "reachable cfg d \<Longrightarrow> single_active d"
proof (induction rule: reachable.induct)
  case (start d)
  then show ?case by (simp add: single_active_def active_count_def)
next
  case (step d now r)
  then show ?case by (simp add: single_exec)
qed

lemma invite_touches_ends:
  "invite_touches d inviteId u \<longleftrightarrow>
     (\<forall>x \<in> set (invite_ends d). fst x = inviteId \<longrightarrow> fst (snd x) = u \<or> snd (snd x) = u)"
  by (auto simp: invite_touches_def invite_ends_def list_all_iff)

lemma hasActive_same:
  "duello_matches d' = duello_matches d \<Longrightarrow> hasActiveMatch d' u = hasActiveMatch d u"
  by (simp add: hasActiveMatch_def)

lemma run_accepts_bound:
  assumes "\<forall>c \<in> set calls. invite_touches d (fst (snd c)) u"
  shows "length (filter is_accepted (fst (run_accepts calls d)))
           \<le> (if hasActiveMatch d u then 0 else 1) \<and>
         (\<forall>r \<in> set (fst (run_accepts calls d)). is_accepted r \<or> r \<in> Inl ` accept_failures) \<and>
         length (duello_matches (snd (run_accepts calls d)))
           = length (duello_matches d) + length (filter is_accepted (fst (run_accepts calls d)))"
  using assms
proof (induction calls arbitrary: d)
  case Nil
  then show ?case by simp
next
  case (Cons c cs)
  obtain now inviteId userId where c: "c = (now, inviteId, userId)" by (cases c) auto
  obtain r d1 ns where e: "respondInvite now inviteId userId ''accept'' d = (r, d1, ns)"
    by (cases "respondInvite now inviteId userId ''accept'' d") auto
  obtain rs d2 where e2: "run_accepts cs d1 = (rs, d2)" by (cases "run_accepts cs d1") auto
  have run: "run_accepts (c # cs) d = (r # rs, d2)" using c e e2 by simp
  note cases = respond_accept_cases [OF e]
  have ends: "invite_ends d1 = invite_ends d" using cases by simp
  have touch1: "\<forall>c \<in> set cs. invite_touches d1 (fst (snd c)) u"
    using Cons.prems by (simp add: invite_touches_ends ends)
  note ih = Cons.IH [OF touch1, unfolded e2, simplified]
  show ?case
  proof (cases "is_accepted r")
    case False
    then have same: "duello_matches d1 = duello_matches d" and fail: "r \<in> Inl ` accept_failures"
      using cases by (auto simp: is_accepted_def)
    show ?thesis
      using ih False fail hasActive_same [OF same, of u] same
      by (simp add: run split: if_splits)
  next
    case True
    then obtain m where m: "r = Inr (AcceptedOk m)" "duello_matches d1 = duello_matches d @ [m]"
        "m_state m = Active" "(inviteId, user_a_id m, user_b_id m) \<in> set (invite_ends d)"
        "\<not> hasActiveMatch d (user_a_id m)" "\<not> hasActiveMatch d (user_b_id m)"
      using cases by (auto simp: is_accepted_def accept_failures_def)
    have "invite_touches d inviteId u" using Cons.prems c by simp
    then have refs: "user_a_id m = u \<or> user_b_id m = u"
      using m(4) by (auto simp: invite_touches_ends)
    then have before: "\<not> hasActiveMatch d u" using m(5,6) by auto
    have after: "hasActiveMatch d1 u"
      using refs m(2,3) by (auto simp: hasActiveMatch_def references_def)
    show ?thesis
      using ih True before after m(2) by (simp add: run)
  qed
qed

lemma acceptTx_already_active:
  assumes "find (\<lambda>i. i_id i = inviteId) (duello_invites d) = Some i"
      and "i_status i = Pending" "now < expire_at i"
      and "hasActiveMatch d fromId \<or> hasActiveMatch d toId"
  shows "acceptTx now inviteId fromId toId d = (Inl AlreadyActive, d, [])"
  using assms by (auto simp: acceptTx_def)

text \<open>
  Claim C1, amended. In every state reachable from a database without matches by any
  requests (and any changes of users, surveys and questions), each user is referenced by
  at most one active match row. For accept calls run one after the other on invites that
  all touch a user \<open>u\<close>: at most one call creates a match, none does when \<open>u\<close>
  already has an active match, every other call fails with one of the errors of the
  accept path (not found, forbidden, not pending, expired, already active, or a failed
  statement), and a match row is added per successful call only. The transaction itself
  returns \<open>AlreadyActive\<close> and writes nothing whenever its invite is still pending and
  unexpired and one of the two users has an active match.
\<close>

theorem single_active_match:
  "(reachable cfg d \<longrightarrow> active_count d u \<le> 1) \<and>
   ((\<forall>c \<in> set calls. invite_touches d (fst (snd c)) u) \<longrightarrow>
      length (filter is_accepted (fst (run_accepts calls d))) \<le> 1 \<and>
      (hasActiveMatch d u \<longrightarrow> filter is_accepted (fst (run_accepts calls d)) = []) \<and>
      (\<forall>r \<in> set (fst (run_accepts calls d)). is_accepted r \<or> r \<in> Inl ` accept_failures) \<and>
      length (duello_matches (snd (run_accepts calls d)))
        = length (duello_matches d) + length (filter is_accepted (fst (run_accepts calls d)))) \<and>
   (\<forall>i. find (\<lambda>i. i_id i = inviteId) (duello_invites d) = Some i \<and>
        i_status i = Pending \<and> now < expire_at i \<and>
        (hasActiveMatch d fromId \<or> hasActiveMatch d toId) \<longrightarrow>
      acceptTx now inviteId fromId toId d = (Inl AlreadyActive, d, []))"
proof -
  have inv: "reachable cfg d \<longrightarrow> active_count d u \<le> 1"
    using reachable_single [of cfg d] by (auto simp: single_active_def)
  have seq: "(\<forall>c \<in> set calls. invite_touches d (fst (snd c)) u) \<longrightarrow>
      length (filter is_accepted (fst (run_accepts calls d))) \<le> 1 \<and>
      (hasActiveMatch d u \<longrightarrow> filter is_accepted (fst (run_accepts calls d)) = []) \<and>
      (\<forall>r \<in> set (fst (run_accepts calls d)). is_accepted r \<or> r \<in> Inl ` accept_failures) \<and>
      length (duello_matches (snd (run_accepts calls d)))
        = length (duello_matches d) + length (filter is_accepted (fst (run_accepts calls d)))"
  proof
    assume t: "\<forall>c \<in> set calls. invite_touches d (fst (snd c)) u"
    from run_accepts_bound [OF t]
    show "length (filter is_accepted (fst (run_accepts calls d))) \<le> 1 \<and>
      (hasActiveMatch d u \<longrightarrow> filter is_accepted (fst (run_accepts calls d)) = []) \<and>
      (\<forall>r \<in> set (fst (run_accepts calls d)). is_accepted r \<or> r \<in> Inl ` accept_failures) \<and>
      length (duello_matches (snd (run_accepts calls d)))
        = length (duello_matches d) + length (filter is_accepted (fst (run_accepts calls d)))"
      by (auto split: if_splits)
  qed
  have tx: "\<forall>i. find (\<lambda>i. i_id i = inviteId) (duello_invites d) = Some i \<and>
        i_status i = Pending \<and> now < expire_at i \<and>
        (hasActiveMatch d fromId \<or> hasActiveMatch d toId) \<longrightarrow>
      acceptTx now inviteId fromId toId d = (Inl AlreadyActive, d, [])"
    using acceptTx_already_active by blast
  show ?thesis using inv seq tx by blast
qed

lemma demo_accepts_touch:
  "invite_touches demo_two_invites 1 2 \<and> invite_touches demo_two_invites 2 2"
  by code_simp

lemma demo_accepts_results:
  "map is_accepted (fst demo_accepts) = [True, False] \<and>
   length (duello_matches (snd demo_accepts)) = 1"
  by code_simp

theorem single_active_match_witness:
  "reachable \<lparr>cfg_md5 = demo_md5, cfg_lower = demo_lower, cfg_perq = 16, cfg_idle_env = None\<rparr> demo_two_invites \<and>
   active_count demo_two_invites 2 \<le> 1 \<and>
   invite_touches demo_two_invites 1 2 \<and> invite_touches demo_two_invites 2 2 \<and>
   map is_accepted (fst demo_accepts) = [True, False] \<and>
   length (filter is_accepted (fst demo_accepts)) \<le> 1 \<and>
   length (duello_matches (snd demo_accepts)) = 1"
proof -
  let ?cfg = "\<lparr>cfg_md5 = demo_md5, cfg_lower = demo_lower, cfg_perq = 16, cfg_idle_env = None\<rparr>"
  have r: "reachable ?cfg demo_two_invites"
    by (rule reachable.start) (simp add: demo_two_invites_def demo_db_def)
  have t: "\<forall>c \<in> set [(2000, 1, 2), (2001, 2, 2)]. invite_touches demo_two_invites (fst (snd c)) 2"
    using demo_accepts_touch by simp
  note inst = single_active_match [of ?cfg demo_two_invites 2 "[(2000, 1, 2), (2001, 2, 2)]"]
  have a: "active_count demo_two_invites 2 \<le> 1" using inst r by blast
  have b: "length (filter is_accepted (fst demo_accepts)) \<le> 1"
    unfolding demo_accepts_def using inst t by blast
  show ?thesis using r a b demo_accepts_touch demo_accepts_results by simp
qed

text \<open>
  Claim C1 as stated fails in its last part: user 2 accepts the invite of user 1, then
  the invite of user 3. The first call creates the match and cancels the other invite;
  the second call fails with \<open>NotPending\<close>, not with \<open>AlreadyActive\<close>.
\<close>

theorem second_accept_not_pending:
  "map is_accepted (fst demo_accepts) = [True, False] \<and>
   fst demo_accepts ! 1 = Inl NotPending \<and>
   fst demo_accepts ! 1 \<noteq> Inl AlreadyActive \<and>
   map i_status (duello_invites (snd demo_accepts)) = [Accepted, Cancelled]"
  by code_simp

section \<open>Terminal states when the handlers run one at a time\<close>

text \<open>
  When every handler call runs to its end before the next one starts, a match that is
  finished or abandoned keeps its state for ever: the finishing writes of \<open>reveal\<close>
  then address the row that the handler has just read as active, and every other write
  to \<open>state\<close> has the condition \<open>state='active'\<close>.
\<close>

lemma settled_same: "duello_matches d' = duello_matches d \<Longrightarrow> settled d d'"
  by (simp add: settled_def state_of_def duelloGetMatch_def)

lemma settled_trans: "settled d d1 \<Longrightarrow> settled d1 d2 \<Longrightarrow> settled d d2"
  by (simp add: settled_def)

lemma state_of_map:
  assumes "\<And>m. m_id (f m) = m_id m"
  shows "state_of (d\<lparr>duello_matches := map f (duello_matches d)\<rparr>) i
           = map_option (\<lambda>m. m_state (f m)) (duelloGetMatch d i)"
proof -
  have "find (\<lambda>m. m_id m = i) (map f (duello_matches d))
          = map_option f (find (\<lambda>m. m_id m = i) (duello_matches d))"
    by (rule find_map_preserving) (simp add: assms)
  then show ?thesis by (simp add: state_of_def duelloGetMatch_def option.map_comp comp_def)
qed

lemma settled_map:
  assumes "\<And>m. m_id (f m) = m_id m"
      and "\<And>m. m_state m \<noteq> Active \<Longrightarrow> m_state (f m) = m_state m"
  shows "settled d (d\<lparr>duello_matches := map f (duello_matches d)\<rparr>)"
  unfolding settled_def state_of_map [of f, OF assms(1)]
  by (auto simp: state_of_def assms(2))

lemma state_of_keep:
  assumes "\<And>m. m_id (f m) = m_id m" and "\<And>m. m_state (f m) = m_state m"
  shows "state_of (d\<lparr>duello_matches := map f (duello_matches d)\<rparr>) i = state_of d i"
  unfolding state_of_map [of f, OF assms(1)] by (simp add: state_of_def assms(2))

lemma state_of_touch: "state_of (touch_liveness now i u d) j = state_of d j"
  unfolding touch_liveness_def by (rule state_of_keep) simp_all

lemma settled_expire: "settled d (expireOldInvites now d)"
  by (rule settled_same) (simp add: expireOldInvites_def)

lemma settled_lazy: "settled d (lazy_finish now d)"
  unfolding lazy_finish_def by (rule settled_map) simp_all

lemma settled_touch_status: "settled d (touch_liveness_status now i u d)"
  unfolding touch_liveness_status_def by (rule settled_map) simp_all

lemma settled_touch: "settled d (touch_liveness now i u d)"
  unfolding touch_liveness_def by (rule settled_map) simp_all

lemma settled_set_index: "settled d (set_index i n d)"
  unfolding set_index_def by (rule settled_map) simp_all

lemma settled_idle: "settled d (fst (duelloIdleAbortTick env now d))"
proof (cases "DUELLO_IDLE_ABORT_SEC env")
  case None
  then show ?thesis by (simp add: duelloIdleAbortTick_def settled_same)
next
  case (Some sec)
  have "settled d (d\<lparr>duello_matches := map (\<lambda>m. if idle_expired now sec m then abandon now m else m) (duello_matches d)\<rparr>)"
    by (rule settled_map) (auto simp: abandon_def idle_expired_def)
  then show ?thesis using Some by (simp add: duelloIdleAbortTick_def)
qed

lemma settled_ensure: "settled d (snd (ensureDuelloQuestionSet md5 m d))"
proof -
  have "duello_matches ((snd (ensureDuelloQuestionSet md5 m d))\<lparr>duello_match_questions := duello_match_questions d\<rparr>)
        = duello_matches d"
    by (simp only: ensure_frame)
  then show ?thesis by (intro settled_same) simp
qed

text \<open>The two finishing writes keep every settled state when the row they address is active.\<close>

lemma settled_finish_by_id:
  assumes "state_of d matchId = Some Active"
  shows "settled d (finish_by_id now matchId d)"
proof -
  let ?f = "\<lambda>m. if m_id m = matchId then m\<lparr>m_state := Finished, finished_at := Some now\<rparr> else m"
  have s: "state_of (finish_by_id now matchId d) i = map_option (\<lambda>m. m_state (?f m)) (duelloGetMatch d i)" for i
    unfolding finish_by_id_def by (rule state_of_map) simp
  show ?thesis
    unfolding settled_def
  proof (intro allI impI)
    fix i s assume a: "state_of d i = Some s \<and> s \<noteq> Active"
    then have "i \<noteq> matchId" using assms by auto
    moreover obtain m where m: "duelloGetMatch d i = Some m" "m_state m = s"
      using a by (auto simp: state_of_def)
    moreover have "m_id m = i" using m(1) by (rule duelloGetMatch_id)
    ultimately show "state_of (finish_by_id now matchId d) i = Some s"
      by (simp add: s)
  qed
qed

lemma settled_finish_last:
  assumes "state_of d matchId = Some Active"
  shows "settled d (finish_last now matchId n d)"
proof -
  let ?f = "\<lambda>m. if m_id m = matchId
                 then m\<lparr>current_index := n, m_state := Finished, finished_at := Some now\<rparr> else m"
  have s: "state_of (finish_last now matchId n d) i = map_option (\<lambda>m. m_state (?f m)) (duelloGetMatch d i)" for i
    unfolding finish_last_def by (rule state_of_map) simp
  show ?thesis
    unfolding settled_def
  proof (intro allI impI)
    fix i s assume a: "state_of d i = Some s \<and> s \<noteq> Active"
    then have "i \<noteq> matchId" using assms by auto
    moreover obtain m where m: "duelloGetMatch d i = Some m" "m_state m = s"
      using a by (auto simp: state_of_def)
    moreover have "m_id m = i" using m(1) by (rule duelloGetMatch_id)
    ultimately show "state_of (finish_last now matchId n d) i = Some s"
      by (simp add: s)
  qed
qed

lemma state_of_autofill:
  "state_of (snd (reveal_autofill perq now m matchId qid d)) i = state_of d i"
  by (simp add: state_of_def duelloGetMatch_def reveal_autofill_matches)

lemma settled_createInvite: "settled d (fst (snd (createInvite now fromId to_id to_code mode_raw d)))"
proof -
  have l: "settled d (lazy_finish now (expireOldInvites now d))"
    by (rule settled_trans [OF settled_expire settled_lazy])
  have "\<And>r d3. insert_invite now fromId t mode (lazy_finish now (expireOldInvites now d)) = (r, d3)
         \<Longrightarrow> settled d d3" for t mode
    using l by (auto simp: settled_def state_of_def duelloGetMatch_def dest: insert_invite_matches)
  then show ?thesis
    using l by (auto simp: createInvite_unfold Let_def settled_same split: option.splits prod.splits)
qed

lemma settled_submitAnswer: "settled d (snd (submitAnswer lc perq now matchId userId raw tls mls d))"
proof -
  have t: "settled d (touch_liveness now matchId userId d)" by (rule settled_touch)
  have a: "\<And>x. settled d ((touch_liveness now matchId userId d)\<lparr>duello_answers := x\<rparr>)"
    using t by (simp add: settled_def state_of_def duelloGetMatch_def)
  show ?thesis
    using t a
    by (auto simp: submitAnswer_atomic Let_def settled_same insert_answer_def split: option.splits if_splits)
qed

lemma settled_reveal_from:
  assumes "duelloGetMatch d matchId = Some m"
  shows "settled d (fst (snd (reveal_from perq now matchId userId m d)))"
proof (cases "m_state m = Active")
  case False
  then show ?thesis by (simp add: reveal_from_def settled_same)
next
  case True
  let ?d1 = "touch_liveness now matchId userId d"
  have act: "state_of d matchId = Some Active" using assms True by (simp add: state_of_def)
  have t: "settled d ?d1" by (rule settled_touch)
  have act1: "state_of ?d1 matchId = Some Active" using act by (simp add: state_of_touch)
  have f: "settled d d2 \<and> state_of d2 matchId = Some Active"
    if "reveal_autofill perq now m matchId qid ?d1 = (b, d2)" for qid b d2
  proof -
    have "d2 = snd (reveal_autofill perq now m matchId qid ?d1)" using that by simp
    then have "\<And>i. state_of d2 i = state_of ?d1 i" by (simp add: state_of_autofill)
    then show ?thesis using t act1 by (simp add: settled_def)
  qed
  have f1: "settled d (finish_last now matchId n d2)"
    if "reveal_autofill perq now m matchId qid ?d1 = (b, d2)" for qid b d2 n
    using settled_trans [OF conjunct1 [OF f [OF that]] settled_finish_last [OF conjunct2 [OF f [OF that]]]] .
  have f2: "settled d (set_index matchId n d2)"
    if "reveal_autofill perq now m matchId qid ?d1 = (b, d2)" for qid b d2 n
    using settled_trans [OF conjunct1 [OF f [OF that]] settled_set_index] .
  have f3: "settled d (finish_by_id now matchId ?d1)"
    using settled_trans [OF t settled_finish_by_id [OF act1]] .
  have f0: "settled d d2" if "reveal_autofill perq now m matchId qid ?d1 = (b, d2)" for qid b d2
    using f [OF that] by simp
  show ?thesis
    using t f0 f1 f2 f3
    by (auto simp: reveal_from_def Let_def settled_same split: option.splits prod.splits bool.splits)
qed

lemma settled_reveal: "settled d (fst (snd (reveal perq now matchId userId d)))"
  by (simp add: reveal_def settled_same settled_reveal_from split: option.splits)

lemma settled_status: "settled d (snd (matchStatus md5 now matchId userId d))"
proof -
  have "settled d (snd (ensureDuelloQuestionSet md5 m (touch_liveness_status now matchId userId d)))" for m
    by (rule settled_trans [OF settled_touch_status settled_ensure])
  then show ?thesis
    by (auto simp: matchStatus_def Let_def settled_same split: option.splits prod.splits)
qed

lemma settled_summary: "settled d (snd (matchSummary md5 matchId userId d))"
  using settled_ensure
  by (auto simp: matchSummary_def Let_def settled_same split: option.splits prod.splits)

lemma find_append_some: "find P xs = Some x \<Longrightarrow> find P (xs @ ys) = Some x"
  by (induction xs) (auto split: if_splits)

lemma settled_append:
  assumes "duello_matches d' = duello_matches d @ ms"
  shows "settled d d'"
  using assms by (auto simp: settled_def state_of_def duelloGetMatch_def find_append_some)

lemma settled_acceptTx: "settled d (fst (snd (acceptTx now inviteId fromId toId d)))"
  by (auto simp: acceptTx_def Let_def settled_same intro: settled_append split: option.splits)

lemma settled_respond: "settled d (fst (snd (respondInvite now inviteId userId action_raw d)))"
proof -
  have "settled d (fst (snd (acceptTx now inviteId a b (expireOldInvites now d))))" for a b
    by (rule settled_trans [OF settled_expire settled_acceptTx])
  moreover have "settled d ((expireOldInvites now d)\<lparr>duello_invites := x\<rparr>)" for x
    by (rule settled_same) (simp add: expireOldInvites_def)
  ultimately show ?thesis
    using settled_expire [of d now]
    by (auto simp: respondInvite_def Let_def settled_same split: option.splits)
qed

lemma settled_exec: "settled d (exec cfg now r d)"
  by (cases r)
     (simp_all add: settled_createInvite settled_respond settled_expire settled_status
        settled_submitAnswer settled_reveal settled_summary settled_idle settled_same)

lemma settled_run: "settled d (run_requests cfg rs d)"
proof (induction rs arbitrary: d)
  case Nil
  show ?case by (simp add: settled_same)
next
  case (Cons a rs)
  obtain now r where a: "a = (now, r)" by (cases a)
  show ?case unfolding a using settled_trans [OF settled_exec Cons.IH] by simp
qed

section \<open>Creating an invite on a reachable database\<close>





































end
